theory Spec2Isabelle
  imports Main "HOL-Library.AList"
begin

section \<open>Data model\<close>

text \<open>
  The solver of \<^verbatim>\<open>generate.py\<close> (class \<^verbatim>\<open>CrosswordCreator\<close>) works on a
  \<^verbatim>\<open>Crossword\<close> object whose class lives in a module that is imported, not defined,
  by the file. What the solver reads from it is taken as data:
  \<^item> \<^verbatim>\<open>crossword.variables\<close>, a set of slots, as the list of its elements in
    iteration order;
  \<^item> \<^verbatim>\<open>crossword.words\<close>, a set of strings, as the list of its elements in the
    order in which the solver meets them: it only ever iterates the per-slot copies
    that \<^verbatim>\<open>__init__\<close> makes, and \<open>words\<close> is their common iteration order;
  \<^item> \<^verbatim>\<open>crossword.overlaps\<close>, the table from ordered pairs of slots to
    \<^verbatim>\<open>None\<close> or a pair of indices, as a function into an option
    (\<^verbatim>\<open>overlaps.get\<close> of a missing key and a stored \<^verbatim>\<open>None\<close> are both
    \<open>None\<close>).

  A Python set is modelled by a list without duplicates, in the order in which the
  interpreter iterates it; removing an element keeps the order of the others.
  A Python dict with insertion order (an assignment) is an association list.
\<close>

text \<open>
  Modelled from the spec: the class \<^verbatim>\<open>Variable\<close> is not part of the file; the spec
  gives a slot a starting row, a starting column, an orientation (one of ACROSS and
  DOWN) and a length, and makes two slots equal iff all four are equal. The solver
  reads \<^verbatim>\<open>var.length\<close> only.
\<close>

datatype direction = ACROSS | DOWN

datatype Variable =
  Variable (var_i: nat) (var_j: nat) (var_direction: direction) (var_length: nat)

record Crossword =
  variables :: "Variable list"
  words :: "string list"
  overlaps :: "Variable \<times> Variable \<Rightarrow> (nat \<times> nat) option"

text \<open>
  \<^verbatim>\<open>self.domains\<close> is created by \<^verbatim>\<open>__init__\<close> with one key per variable, in
  the iteration order of \<^verbatim>\<open>crossword.variables\<close>, and no key is ever added or
  deleted. It is a function from slots to candidate lists; iterating the dict is
  iterating \<open>variables\<close>.
\<close>

type_synonym domains = "Variable \<Rightarrow> string list"

type_synonym assignment = "(Variable \<times> string) list"

datatype error = IndexError | ValueError

text \<open>Python's \<^verbatim>\<open>s[i]\<close> for a non-negative index: out of range raises.\<close>

definition getitem :: "string \<Rightarrow> nat \<Rightarrow> error + char" where
  "getitem s i = (if i < length s then Inr (s ! i) else Inl IndexError)"

text \<open>
  Modelled from the spec: \<^verbatim>\<open>Crossword.neighbors\<close> is not part of the file; the spec
  says "Neighbors of a slot = all other slots with a defined overlap". The result is a
  set, listed here in the order of \<open>variables\<close>.
\<close>

definition neighbors :: "Crossword \<Rightarrow> Variable \<Rightarrow> Variable list" where
  "neighbors cw var =
     filter (\<lambda>v. v \<noteq> var \<and> overlaps cw (v, var) \<noteq> None) (variables cw)"

text \<open>
  \<^verbatim>\<open>__init__\<close>: every slot starts with its own copy of the whole vocabulary,
  \<^verbatim>\<open>crossword.words.copy()\<close>. The copies are taken to iterate in one common order,
  the list \<open>words\<close>; an interpreter may iterate each copy in an order of its own,
  which changes which of several tied candidates is tried first and nothing else. The
  properties below that compare two orders hold for all orders of the same set.
\<close>

definition init_domains :: "Crossword \<Rightarrow> domains" where
  "init_domains cw = (\<lambda>var. words cw)"

section \<open>Node consistency\<close>

definition enforce_node_consistency :: "Crossword \<Rightarrow> domains \<Rightarrow> domains" where
  "enforce_node_consistency cw doms =
     fold (\<lambda>var d.
        let to_remove = filter (\<lambda>value. length value \<noteq> var_length var) (d var)
        in d(var := filter (\<lambda>value. value \<notin> set to_remove) (d var)))
       (variables cw) doms"

section \<open>Arc revision\<close>

text \<open>
  \<^verbatim>\<open>any(x_value[i] == y_value[j] for y_value in self.domains[y])\<close>: the generator
  evaluates both subscripts for each \<^verbatim>\<open>y_value\<close> in turn and \<^verbatim>\<open>any\<close> stops at the
  first true comparison.
\<close>

fun any_agree :: "string \<Rightarrow> nat \<Rightarrow> nat \<Rightarrow> string list \<Rightarrow> error + bool" where
  "any_agree x_value i j [] = Inr False"
| "any_agree x_value i j (y_value # ys) =
     (case getitem x_value i of
        Inl e \<Rightarrow> Inl e
      | Inr a \<Rightarrow>
          (case getitem y_value j of
             Inl e \<Rightarrow> Inl e
           | Inr b \<Rightarrow> if a = b then Inr True else any_agree x_value i j ys))"

text \<open>The first loop of \<^verbatim>\<open>revise\<close>: the words of \<open>x\<close> collected in \<^verbatim>\<open>to_remove\<close>.\<close>

fun collect_unsupported :: "nat \<Rightarrow> nat \<Rightarrow> string list \<Rightarrow> string list \<Rightarrow> error + string list" where
  "collect_unsupported i j ydom [] = Inr []"
| "collect_unsupported i j ydom (x_value # xs) =
     (case any_agree x_value i j ydom of
        Inl e \<Rightarrow> Inl e
      | Inr found \<Rightarrow>
          (case collect_unsupported i j ydom xs of
             Inl e \<Rightarrow> Inl e
           | Inr to_remove \<Rightarrow> Inr (if found then to_remove else x_value # to_remove)))"

definition revise :: "Crossword \<Rightarrow> domains \<Rightarrow> Variable \<Rightarrow> Variable \<Rightarrow> error + (bool \<times> domains)" where
  "revise cw doms x y =
     (case overlaps cw (x, y) of
        None \<Rightarrow> Inr (False, doms)
      | Some (i, j) \<Rightarrow>
          (case collect_unsupported i j (doms y) (doms x) of
             Inl e \<Rightarrow> Inl e
           | Inr to_remove \<Rightarrow>
               Inr (to_remove \<noteq> [],
                    doms(x := filter (\<lambda>x_value. x_value \<notin> set to_remove) (doms x)))))"

section \<open>AC-3\<close>

lemma collect_unsupported_subset:
  "collect_unsupported i j ydom xdom = Inr to_remove \<Longrightarrow> set to_remove \<subseteq> set xdom"
  by (induction xdom arbitrary: to_remove) (auto split: sum.splits if_splits)

lemma revise_frame:
  "revise cw doms x y = Inr (revised, doms') \<Longrightarrow> v \<noteq> x \<Longrightarrow> doms' v = doms v"
  by (auto simp: revise_def split: option.splits sum.splits)

lemma revise_unrevised:
  "revise cw doms x y = Inr (False, doms') \<Longrightarrow> doms' = doms"
  by (auto simp: revise_def split: option.splits sum.splits)

lemma revise_subset:
  "revise cw doms x y = Inr (revised, doms') \<Longrightarrow> set (doms' v) \<subseteq> set (doms v)"
  by (auto simp: revise_def split: option.splits sum.splits if_splits)

lemma revise_length_le:
  "revise cw doms x y = Inr (revised, doms') \<Longrightarrow> length (doms' v) \<le> length (doms v)"
  by (auto simp: revise_def split: option.splits sum.splits)

lemma revise_shrinks:
  assumes "revise cw doms x y = Inr (True, doms')"
  shows "length (doms' x) < length (doms x)"
proof -
  from assms obtain i j to_remove where
    c: "collect_unsupported i j (doms y) (doms x) = Inr to_remove" and
    ne: "to_remove \<noteq> []" and
    d: "doms' = doms(x := filter (\<lambda>w. w \<notin> set to_remove) (doms x))"
    by (auto simp: revise_def split: option.splits sum.splits)
  from ne obtain w where w: "w \<in> set to_remove"
    by (cases to_remove) auto
  with collect_unsupported_subset [OF c] have "w \<in> set (doms x)"
    by auto
  with w have "length (filter (\<lambda>w. w \<notin> set to_remove) (doms x)) < length (doms x)"
    by (intro length_filter_less) auto
  with d show ?thesis
    by simp
qed

text \<open>
  The loop of \<^verbatim>\<open>ac3\<close> over the deque \<^verbatim>\<open>arcs\<close>: \<^verbatim>\<open>popleft\<close> takes the head,
  \<^verbatim>\<open>append\<close> adds at the end. The code adds the arcs \<open>(z, x)\<close> in the iteration
  order of the temporary set \<^verbatim>\<open>self.crossword.neighbors(x) - set([y])\<close>; here they are
  added in the order of \<open>neighbors\<close>, that is of \<open>variables\<close>. Another order adds
  the same arcs; it can change the store that a failing pass leaves behind, and no
  property below depends on the order: they speak of the set of arcs in the queue.
\<close>

function ac3_loop :: "Crossword \<Rightarrow> domains \<Rightarrow> (Variable \<times> Variable) list \<Rightarrow> error + (bool \<times> domains)" where
  "ac3_loop cw doms [] = Inr (True, doms)"
| "ac3_loop cw doms ((x, y) # arcs) =
     (case revise cw doms x y of
        Inl e \<Rightarrow> Inl e
      | Inr (revised, doms') \<Rightarrow>
          if revised then
            (if doms' x = [] then Inr (False, doms')
             else ac3_loop cw doms'
                    (arcs @ map (\<lambda>z. (z, x)) (filter (\<lambda>z. z \<noteq> y) (neighbors cw x))))
          else ac3_loop cw doms' arcs)"
  by pat_completeness auto

definition store_size :: "Crossword \<Rightarrow> domains \<Rightarrow> (Variable \<times> Variable) list \<Rightarrow> nat" where
  "store_size cw doms arcs =
     (\<Sum>v \<in> fst ` set arcs \<union> set (variables cw). length (doms v))"

lemma store_size_revised:
  assumes "revise cw doms x y = Inr (True, doms')"
  shows "store_size cw doms' (arcs @ map (\<lambda>z. (z, x)) (filter (\<lambda>z. z \<noteq> y) (neighbors cw x)))
           < store_size cw doms ((x, y) # arcs)"
proof -
  let ?S = "fst ` set ((x, y) # arcs) \<union> set (variables cw)"
  let ?S' = "fst ` set (arcs @ map (\<lambda>z. (z, x)) (filter (\<lambda>z. z \<noteq> y) (neighbors cw x)))
               \<union> set (variables cw)"
  have sub: "?S' \<subseteq> ?S"
    by (auto simp: neighbors_def)
  have "(\<Sum>v \<in> ?S'. length (doms' v)) \<le> (\<Sum>v \<in> ?S. length (doms' v))"
    by (rule sum_mono2 [OF _ sub]) auto
  also have "\<dots> < (\<Sum>v \<in> ?S. length (doms v))"
  proof (rule sum_strict_mono_ex1)
    show "finite ?S" by simp
    show "\<forall>v \<in> ?S. length (doms' v) \<le> length (doms v)"
      using revise_length_le [OF assms] by blast
    show "\<exists>v \<in> ?S. length (doms' v) < length (doms v)"
      using revise_shrinks [OF assms] by auto
  qed
  finally show ?thesis
    unfolding store_size_def .
qed

termination ac3_loop
proof (relation "measures [\<lambda>(cw, doms, arcs). store_size cw doms arcs,
                            \<lambda>(cw, doms, arcs). length arcs]", goal_cases)
  case 1
  show ?case by simp
next
  case (2 cw doms x y arcs r revised doms')
  then show ?case
    using store_size_revised [of cw doms x y doms' arcs] by simp
next
  case (3 cw doms x y arcs r revised doms')
  then have "doms' = doms"
    using revise_unrevised [of cw doms x y doms'] by simp
  moreover have "store_size cw doms arcs \<le> store_size cw doms ((x, y) # arcs)"
    unfolding store_size_def by (rule sum_mono2) auto
  ultimately show ?case
    by auto
qed

definition ac3 :: "Crossword \<Rightarrow> domains \<Rightarrow> (Variable \<times> Variable) list option \<Rightarrow> error + (bool \<times> domains)" where
  "ac3 cw doms arcs =
     ac3_loop cw doms
       (case arcs of
          None \<Rightarrow> concat (map (\<lambda>x. map (\<lambda>y. (x, y)) (filter (\<lambda>y. x \<noteq> y) (variables cw)))
                            (variables cw))
        | Some given \<Rightarrow> given)"

section \<open>Assignments\<close>

text \<open>
  An assignment is a dict from slots to words; its values are strings, so the test
  \<^verbatim>\<open>assignment[var] is None\<close> of \<^verbatim>\<open>assignment_complete\<close> is never true and only
  the membership test remains.
\<close>

definition assignment_complete :: "Crossword \<Rightarrow> assignment \<Rightarrow> bool" where
  "assignment_complete cw assignment =
     list_all (\<lambda>var. map_of assignment var \<noteq> None) (variables cw)"

text \<open>
  The inner loop of \<^verbatim>\<open>consistent\<close> over the neighbours of one assigned slot:
  \<open>Inr False\<close> is the early \<^verbatim>\<open>return False\<close>, \<open>Inr True\<close> is falling out of
  the loop.
\<close>

fun agrees_with_neighbors ::
  "Crossword \<Rightarrow> assignment \<Rightarrow> Variable \<Rightarrow> string \<Rightarrow> Variable list \<Rightarrow> error + bool" where
  "agrees_with_neighbors cw assignment var value [] = Inr True"
| "agrees_with_neighbors cw assignment var value (neighbor # ns) =
     (case map_of assignment neighbor of
        None \<Rightarrow> agrees_with_neighbors cw assignment var value ns
      | Some neighbor_value \<Rightarrow>
          (case overlaps cw (var, neighbor) of
             None \<Rightarrow> agrees_with_neighbors cw assignment var value ns
           | Some (i, j) \<Rightarrow>
               (case getitem value i of
                  Inl e \<Rightarrow> Inl e
                | Inr a \<Rightarrow>
                    (case getitem neighbor_value j of
                       Inl e \<Rightarrow> Inl e
                     | Inr b \<Rightarrow>
                         if a \<noteq> b then Inr False
                         else agrees_with_neighbors cw assignment var value ns))))"

fun consistent_items :: "Crossword \<Rightarrow> assignment \<Rightarrow> assignment \<Rightarrow> error + bool" where
  "consistent_items cw assignment [] = Inr True"
| "consistent_items cw assignment ((var, value) # items) =
     (if length value \<noteq> var_length var then Inr False
      else
        (case agrees_with_neighbors cw assignment var value (neighbors cw var) of
           Inl e \<Rightarrow> Inl e
         | Inr ok \<Rightarrow> if ok then consistent_items cw assignment items else Inr False))"

definition consistent :: "Crossword \<Rightarrow> assignment \<Rightarrow> error + bool" where
  "consistent cw assignment =
     (if \<not> distinct (map snd assignment) then Inr False
      else consistent_items cw assignment assignment)"

section \<open>Heuristics\<close>

text \<open>
  \<^verbatim>\<open>count_conflicts\<close>, the key function of \<^verbatim>\<open>order_domain_values\<close>; the counter
  \<^verbatim>\<open>conflicts\<close> is threaded through both loops.
\<close>

fun count_in_domain :: "string \<Rightarrow> nat \<Rightarrow> nat \<Rightarrow> string list \<Rightarrow> nat \<Rightarrow> error + nat" where
  "count_in_domain value i j [] conflicts = Inr conflicts"
| "count_in_domain value i j (neighbor_val # rest) conflicts =
     (case getitem value i of
        Inl e \<Rightarrow> Inl e
      | Inr a \<Rightarrow>
          (case getitem neighbor_val j of
             Inl e \<Rightarrow> Inl e
           | Inr b \<Rightarrow>
               count_in_domain value i j rest (if a \<noteq> b then conflicts + 1 else conflicts)))"

fun count_over_neighbors ::
  "Crossword \<Rightarrow> domains \<Rightarrow> Variable \<Rightarrow> assignment \<Rightarrow> string \<Rightarrow> Variable list \<Rightarrow> nat \<Rightarrow> error + nat" where
  "count_over_neighbors cw doms var assignment value [] conflicts = Inr conflicts"
| "count_over_neighbors cw doms var assignment value (neighbor # ns) conflicts =
     (if map_of assignment neighbor = None then
        (case overlaps cw (var, neighbor) of
           None \<Rightarrow> count_over_neighbors cw doms var assignment value ns conflicts
         | Some (i, j) \<Rightarrow>
             (case count_in_domain value i j (doms neighbor) conflicts of
                Inl e \<Rightarrow> Inl e
              | Inr c \<Rightarrow> count_over_neighbors cw doms var assignment value ns c))
      else count_over_neighbors cw doms var assignment value ns conflicts)"

definition count_conflicts ::
  "Crossword \<Rightarrow> domains \<Rightarrow> Variable \<Rightarrow> assignment \<Rightarrow> string \<Rightarrow> error + nat" where
  "count_conflicts cw doms var assignment value =
     count_over_neighbors cw doms var assignment value (neighbors cw var) 0"

text \<open>
  \<^verbatim>\<open>sorted(xs, key=f)\<close> computes the key of every element first, in order, and then
  sorts stably by it; \<open>sort_key\<close> is stable as well.
\<close>

fun with_keys :: "('a \<Rightarrow> error + nat) \<Rightarrow> 'a list \<Rightarrow> error + (nat \<times> 'a) list" where
  "with_keys key [] = Inr []"
| "with_keys key (x # xs) =
     (case key x of
        Inl e \<Rightarrow> Inl e
      | Inr k \<Rightarrow>
          (case with_keys key xs of
             Inl e \<Rightarrow> Inl e
           | Inr kxs \<Rightarrow> Inr ((k, x) # kxs)))"

definition order_domain_values ::
  "Crossword \<Rightarrow> domains \<Rightarrow> Variable \<Rightarrow> assignment \<Rightarrow> error + string list" where
  "order_domain_values cw doms var assignment =
     (case with_keys (count_conflicts cw doms var assignment) (doms var) of
        Inl e \<Rightarrow> Inl e
      | Inr kxs \<Rightarrow> Inr (map snd (sort_key fst kxs)))"

text \<open>
  \<^verbatim>\<open>min(unassigned, key=lambda var: (mrv(var), -degree(var)))\<close>: tuples compare
  lexicographically, the first minimal element in iteration order wins, and an empty
  sequence raises \<^verbatim>\<open>ValueError\<close>.
\<close>

definition tuple_less :: "nat \<times> int \<Rightarrow> nat \<times> int \<Rightarrow> bool" where
  "tuple_less k k' = (fst k < fst k' \<or> (fst k = fst k' \<and> snd k < snd k'))"

fun min_by_key :: "('a \<Rightarrow> nat \<times> int) \<Rightarrow> 'a list \<Rightarrow> error + 'a" where
  "min_by_key key [] = Inl ValueError"
| "min_by_key key (x # xs) =
     Inr (fold (\<lambda>item best. if tuple_less (key item) (key best) then item else best) xs x)"

definition select_unassigned_variable ::
  "Crossword \<Rightarrow> domains \<Rightarrow> assignment \<Rightarrow> error + Variable" where
  "select_unassigned_variable cw doms assignment =
     (let unassigned = filter (\<lambda>var. map_of assignment var = None) (variables cw);
          mrv = (\<lambda>var. length (doms var));
          degree = (\<lambda>var. length (neighbors cw var))
      in min_by_key (\<lambda>var. (mrv var, - int (degree var))) unassigned)"

section \<open>Backtracking search\<close>

lemma min_by_key_member:
  "min_by_key key xs = Inr v \<Longrightarrow> v \<in> set xs"
proof (cases xs)
  case Nil
  then show "min_by_key key xs = Inr v \<Longrightarrow> v \<in> set xs" by simp
next
  case (Cons x xs')
  have "fold (\<lambda>item best. if tuple_less (key item) (key best) then item else best) ys b
          \<in> insert b (set ys)" for ys b
    by (induction ys arbitrary: b) auto
  with Cons show "min_by_key key xs = Inr v \<Longrightarrow> v \<in> set xs"
    by auto
qed

lemma select_unassigned_variable_member:
  "select_unassigned_variable cw doms assignment = Inr var \<Longrightarrow>
     var \<in> set (variables cw) \<and> map_of assignment var = None"
  unfolding select_unassigned_variable_def Let_def
  by (drule min_by_key_member) simp

text \<open>
  \<^verbatim>\<open>backtrack\<close> and its loop over the ordered values. The list of values is computed
  once, before the loop; the store \<^verbatim>\<open>self.domains\<close> is threaded through every call
  of \<^verbatim>\<open>ac3\<close> and of \<^verbatim>\<open>backtrack\<close> and is returned with the result, as the method
  leaves it behind. \<^verbatim>\<open>if result:\<close> is false for \<^verbatim>\<open>None\<close> and for an empty dict.
\<close>

function backtrack ::
    "Crossword \<Rightarrow> domains \<Rightarrow> assignment \<Rightarrow> error + (assignment option \<times> domains)"
  and backtrack_values ::
    "Crossword \<Rightarrow> domains \<Rightarrow> assignment \<Rightarrow> Variable \<Rightarrow> string list
       \<Rightarrow> error + (assignment option \<times> domains)" where
  "backtrack cw doms assignment =
     (if assignment_complete cw assignment then Inr (Some assignment, doms)
      else
        (case select_unassigned_variable cw doms assignment of
           Inl e \<Rightarrow> Inl e
         | Inr var \<Rightarrow>
             (case order_domain_values cw doms var assignment of
                Inl e \<Rightarrow> Inl e
              | Inr vals \<Rightarrow> backtrack_values cw doms assignment var vals)))"
| "backtrack_values cw doms assignment var [] = Inr (None, doms)"
| "backtrack_values cw doms assignment var (value # vals) =
     (let new_assignment = AList.update var value assignment in
      case consistent cw new_assignment of
        Inl e \<Rightarrow> Inl e
      | Inr ok \<Rightarrow>
          if ok then
            (case ac3 cw doms (Some (map (\<lambda>neighbor. (var, neighbor)) (neighbors cw var))) of
               Inl e \<Rightarrow> Inl e
             | Inr (arc_ok, doms') \<Rightarrow>
                 if arc_ok then
                   (case backtrack cw doms' new_assignment of
                      Inl e \<Rightarrow> Inl e
                    | Inr (result, doms'') \<Rightarrow>
                        (case result of
                           None \<Rightarrow> backtrack_values cw doms'' assignment var vals
                         | Some found \<Rightarrow>
                             if found \<noteq> [] then Inr (Some found, doms'')
                             else backtrack_values cw doms'' assignment var vals))
                 else backtrack_values cw doms' assignment var vals)
          else backtrack_values cw doms assignment var vals)"
  by pat_completeness auto

definition unassigned_count :: "Crossword \<Rightarrow> assignment \<Rightarrow> Variable set \<Rightarrow> nat" where
  "unassigned_count cw assignment extra =
     card (set (variables cw) - dom (map_of assignment) - extra)"

lemma unassigned_count_select:
  assumes "var \<in> set (variables cw)" and "map_of assignment var = None"
  shows "unassigned_count cw assignment {var} < unassigned_count cw assignment {}"
  unfolding unassigned_count_def using assms
  by (intro psubset_card_mono) (auto simp: dom_def)

lemma unassigned_count_update:
  "unassigned_count cw (AList.update var value assignment) {} = unassigned_count cw assignment {var}"
  unfolding unassigned_count_def
  by (rule arg_cong [where f = card]) (auto simp: update_conv')

termination backtrack
proof (relation "measures
    [\<lambda>s. case s of
        Inl (cw, doms, assignment) \<Rightarrow> 2 * unassigned_count cw assignment {} + 2
      | Inr (cw, doms, assignment, var, vals) \<Rightarrow> 2 * unassigned_count cw assignment {var} + 3,
     \<lambda>s. case s of
        Inl (cw, doms, assignment) \<Rightarrow> 0
      | Inr (cw, doms, assignment, var, vals) \<Rightarrow> length vals]", goal_cases)
  case 1
  show ?case by simp
next
  case (2 cw doms assignment var vals)
  then show ?case
    using unassigned_count_select [of var cw assignment]
    by (auto dest!: select_unassigned_variable_member)
qed (auto simp: unassigned_count_update)

declare backtrack.simps [simp del]

definition solve :: "Crossword \<Rightarrow> domains \<Rightarrow> error + (assignment option \<times> domains)" where
  "solve cw doms =
     (let node_doms = enforce_node_consistency cw doms in
      case ac3 cw node_doms None of
        Inl e \<Rightarrow> Inl e
      | Inr (arc_ok, arc_doms) \<Rightarrow> backtrack cw arc_doms [])"

section \<open>The search with assignments as objects\<close>

text \<open>
  In \<^verbatim>\<open>backtrack\<close> an assignment is a reference to a dict object:
  \<^verbatim>\<open>assignment.copy()\<close> allocates a new dict, \<^verbatim>\<open>new_assignment[var] = value\<close>
  writes into it, and \<^verbatim>\<open>return assignment\<close> returns the reference it was given. To tell
  a write into the caller's dict from a write into a copy, the search is modelled a
  second time over a heap of dicts: a reference is an index into the heap, a new
  object is appended, and a write updates the heap at the reference. The heap is
  threaded through like the store. The recursion depth is bounded by \<open>fuel\<close>, one unit
  per nested call of \<^verbatim>\<open>backtrack\<close>; \<open>None\<close> means that the fuel ran out.
  \<open>heap_extends\<close> says that a heap still holds every old object unchanged.
\<close>

type_synonym ref = nat
type_synonym heap = "assignment list"

fun backtrack_h ::
    "nat \<Rightarrow> Crossword \<Rightarrow> domains \<Rightarrow> heap \<Rightarrow> ref
       \<Rightarrow> (error + (ref option \<times> domains \<times> heap)) option"
  and backtrack_values_h ::
    "nat \<Rightarrow> Crossword \<Rightarrow> domains \<Rightarrow> heap \<Rightarrow> ref \<Rightarrow> Variable \<Rightarrow> string list
       \<Rightarrow> (error + (ref option \<times> domains \<times> heap)) option" where
  "backtrack_h fuel cw doms heap assignment =
     (if assignment_complete cw (heap ! assignment) then Some (Inr (Some assignment, doms, heap))
      else
        (case select_unassigned_variable cw doms (heap ! assignment) of
           Inl e \<Rightarrow> Some (Inl e)
         | Inr var \<Rightarrow>
             (case order_domain_values cw doms var (heap ! assignment) of
                Inl e \<Rightarrow> Some (Inl e)
              | Inr vals \<Rightarrow> backtrack_values_h fuel cw doms heap assignment var vals)))"
| "backtrack_values_h fuel cw doms heap assignment var [] = Some (Inr (None, doms, heap))"
| "backtrack_values_h fuel cw doms heap assignment var (value # vals) =
     (let new_assignment = length heap;
          heap1 = heap @ [heap ! assignment];
          heap2 = heap1[new_assignment := AList.update var value (heap1 ! new_assignment)]
      in
      case consistent cw (heap2 ! new_assignment) of
        Inl e \<Rightarrow> Some (Inl e)
      | Inr ok \<Rightarrow>
          if ok then
            (case ac3 cw doms (Some (map (\<lambda>neighbor. (var, neighbor)) (neighbors cw var))) of
               Inl e \<Rightarrow> Some (Inl e)
             | Inr (arc_ok, doms') \<Rightarrow>
                 if arc_ok then
                   (case fuel of
                      0 \<Rightarrow> None
                    | Suc deeper \<Rightarrow>
                        (case backtrack_h deeper cw doms' heap2 new_assignment of
                           None \<Rightarrow> None
                         | Some (Inl e) \<Rightarrow> Some (Inl e)
                         | Some (Inr (result, doms'', heap3)) \<Rightarrow>
                             (case result of
                                None \<Rightarrow> backtrack_values_h fuel cw doms'' heap3 assignment var vals
                              | Some found \<Rightarrow>
                                  if heap3 ! found \<noteq> [] then Some (Inr (Some found, doms'', heap3))
                                  else backtrack_values_h fuel cw doms'' heap3 assignment var vals)))
                 else backtrack_values_h fuel cw doms' heap2 assignment var vals)
          else backtrack_values_h fuel cw doms heap2 assignment var vals)"

declare backtrack_h.simps [simp del]

definition heap_extends :: "heap \<Rightarrow> heap \<Rightarrow> bool" where
  "heap_extends heap heap' = (take (length heap) heap' = heap)"

section \<open>Well-formed puzzles and consistent stores\<close>

text \<open>
  What the solver relies on in the overlap table of a puzzle: an overlap relates two
  different slots, its indices are positions inside the two slots, and the table is
  symmetric. A store is node consistent when every candidate of a slot has the slot's
  length, and an arc \<open>(x, y)\<close> holds when every candidate of \<open>x\<close> has a candidate
  of \<open>y\<close> with the same letter in the shared cell.
\<close>

definition wf_crossword :: "Crossword \<Rightarrow> bool" where
  "wf_crossword cw =
     (distinct (variables cw) \<and>
      list_all (\<lambda>x. list_all (\<lambda>y.
          case overlaps cw (x, y) of
            None \<Rightarrow> True
          | Some (i, j) \<Rightarrow>
              x \<noteq> y \<and> i < var_length x \<and> j < var_length y \<and> overlaps cw (y, x) = Some (j, i))
        (variables cw)) (variables cw))"

definition node_consistent :: "Crossword \<Rightarrow> domains \<Rightarrow> bool" where
  "node_consistent cw doms =
     list_all (\<lambda>v. list_all (\<lambda>w. length w = var_length v) (doms v)) (variables cw)"

definition arc_holds :: "Crossword \<Rightarrow> domains \<Rightarrow> Variable \<Rightarrow> Variable \<Rightarrow> bool" where
  "arc_holds cw doms x y =
     (case overlaps cw (x, y) of
        None \<Rightarrow> True
      | Some (i, j) \<Rightarrow> list_all (\<lambda>w. list_ex (\<lambda>w'. w ! i = w' ! j) (doms y)) (doms x))"

definition arc_consistent :: "Crossword \<Rightarrow> domains \<Rightarrow> bool" where
  "arc_consistent cw doms =
     list_all (\<lambda>x. list_all (\<lambda>y. arc_holds cw doms x y) (variables cw)) (variables cw)"

text \<open>
  An assignment as the search builds it: a dict (no key twice) whose keys are slots of
  the puzzle and whose words have the length of their slot. \<open>overlaps_agree\<close> is the
  third check of \<^verbatim>\<open>consistent\<close>, stated over all pairs of entries.
  \<open>search_post\<close> collects what a call of the search leaves behind: a node-consistent
  store that only lost words, and a result, if any, that is complete, passed
  \<^verbatim>\<open>consistent\<close> unless it is the caller's own assignment, and takes every new word
  from the store or from the values \<open>extra\<close> still to be tried.
\<close>

definition assignment_ok :: "Crossword \<Rightarrow> assignment \<Rightarrow> bool" where
  "assignment_ok cw assignment =
     (distinct (map fst assignment) \<and>
      list_all (\<lambda>(var, value). var \<in> set (variables cw) \<and> length value = var_length var)
        assignment)"

definition overlaps_agree :: "Crossword \<Rightarrow> assignment \<Rightarrow> bool" where
  "overlaps_agree cw assignment =
     list_all (\<lambda>(x, wx). list_all (\<lambda>(y, wy).
         case overlaps cw (x, y) of None \<Rightarrow> True | Some (i, j) \<Rightarrow> wx ! i = wy ! j)
       assignment) assignment"

definition search_post ::
  "Crossword \<Rightarrow> domains \<Rightarrow> assignment \<Rightarrow> (Variable \<times> string) set \<Rightarrow>
     assignment option \<Rightarrow> domains \<Rightarrow> bool" where
  "search_post cw doms assignment extra result doms' \<longleftrightarrow>
     node_consistent cw doms' \<and> (\<forall>v. set (doms' v) \<subseteq> set (doms v)) \<and>
     (\<forall>a. result = Some a \<longrightarrow>
        assignment_complete cw a \<and> assignment_ok cw a \<and>
        (a = assignment \<or> (consistent cw a = Inr True \<and> a \<noteq> [])) \<and>
        (\<forall>v w. map_of a v = Some w \<longrightarrow>
           map_of assignment v = Some w \<or> w \<in> set (doms v) \<or> (v, w) \<in> extra))"

text \<open>
  A solution of a puzzle, as a choice \<open>s\<close> of one word per slot: words of the
  vocabulary with the slots' lengths, different for different slots, agreeing in every
  shared cell. \<open>fits\<close> is the part of it that does not mention the vocabulary,
  \<open>supported\<close> says that a store still holds every word of \<open>s\<close>, and \<open>follows\<close>
  that an assignment chose the words of \<open>s\<close>.
\<close>

definition solves :: "Crossword \<Rightarrow> (Variable \<Rightarrow> string) \<Rightarrow> bool" where
  "solves cw s =
     (list_all (\<lambda>x. s x \<in> set (words cw) \<and> length (s x) = var_length x) (variables cw) \<and>
      distinct (map s (variables cw)) \<and>
      list_all (\<lambda>x. list_all (\<lambda>y.
          case overlaps cw (x, y) of None \<Rightarrow> True | Some (i, j) \<Rightarrow> s x ! i = s y ! j)
        (variables cw)) (variables cw))"

definition supported :: "Crossword \<Rightarrow> (Variable \<Rightarrow> string) \<Rightarrow> domains \<Rightarrow> bool" where
  "supported cw s doms = list_all (\<lambda>x. s x \<in> set (doms x)) (variables cw)"

definition follows :: "assignment \<Rightarrow> (Variable \<Rightarrow> string) \<Rightarrow> bool" where
  "follows assignment s = list_all (\<lambda>(v, w). s v = w) assignment"

definition fits :: "Crossword \<Rightarrow> (Variable \<Rightarrow> string) \<Rightarrow> bool" where
  "fits cw s =
     (inj_on s (set (variables cw)) \<and>
      (\<forall>x \<in> set (variables cw). \<forall>y \<in> set (variables cw). \<forall>i j.
         overlaps cw (x, y) = Some (i, j) \<longrightarrow> s x ! i = s y ! j))"

section \<open>Example puzzles\<close>

text \<open>
  Two crossing slots of length two that share their first cell (\<open>crossing\<close>), a
  puzzle with the across slot alone (\<open>lone\<close>), a puzzle without slots (\<open>blank\<close>),
  and an across slot in the second row whose first cell is the second cell of the down
  slot (\<open>corner\<close>).
\<close>

definition slot_a :: Variable where
  "slot_a = Variable 0 0 ACROSS 2"

definition slot_d :: Variable where
  "slot_d = Variable 0 0 DOWN 2"

definition crossing :: "string list \<Rightarrow> Crossword" where
  "crossing ws =
     \<lparr>variables = [slot_a, slot_d], words = ws,
      overlaps = (\<lambda>p. if p = (slot_a, slot_d) \<or> p = (slot_d, slot_a) then Some (0, 0) else None)\<rparr>"

definition lone :: "string list \<Rightarrow> Crossword" where
  "lone ws = \<lparr>variables = [slot_a], words = ws, overlaps = (\<lambda>p. None)\<rparr>"

definition blank :: "string list \<Rightarrow> Crossword" where
  "blank ws = \<lparr>variables = [], words = ws, overlaps = (\<lambda>p. None)\<rparr>"



definition store :: "string list \<Rightarrow> string list \<Rightarrow> domains" where
  "store xs ys = (\<lambda>v. [])(slot_a := xs, slot_d := ys)"

section \<open>Properties of node consistency\<close>

lemma filter_not_in_filter:
  "filter (\<lambda>w. w \<notin> set (filter Q xs)) xs = filter (\<lambda>w. \<not> Q w) xs"
  by (rule filter_cong) auto

lemma filter_member_imp:
  "filter (\<lambda>w. w \<in> set xs \<longrightarrow> P w) xs = filter P xs"
  by (rule filter_cong) auto

lemma fold_filter_upd:
  "fold (\<lambda>var d. d(var := filter (P var) (d var))) vs doms var =
     (if var \<in> set vs then filter (P var) (doms var) else doms var)"
  by (induction vs arbitrary: doms) auto

lemma enforce_node_consistency_eq:
  "enforce_node_consistency cw doms var =
     (if var \<in> set (variables cw)
      then filter (\<lambda>w. length w = var_length var) (doms var) else doms var)"
proof -
  have "enforce_node_consistency cw doms =
          fold (\<lambda>var d. d(var := filter (\<lambda>w. \<not> length w \<noteq> var_length var) (d var)))
            (variables cw) doms"
    unfolding enforce_node_consistency_def Let_def filter_not_in_filter ..
  then show ?thesis
    by (simp add: fold_filter_upd)
qed

text \<open>
  Claim C6. For every slot, after \<^verbatim>\<open>enforce_node_consistency\<close> every word left in the
  slot's domain has the slot's length, and only words of another length were removed:
  the domain is the old one filtered by the length test.
\<close>

theorem node_consistency_lengths:
  "var \<in> set (variables cw) \<Longrightarrow>
     enforce_node_consistency cw doms var =
       filter (\<lambda>w. length w = var_length var) (doms var) \<and>
     (\<forall>w \<in> set (enforce_node_consistency cw doms var). length w = var_length var) \<and>
     (\<forall>w \<in> set (doms var).
        w \<notin> set (enforce_node_consistency cw doms var) \<longrightarrow> length w \<noteq> var_length var)"
  by (simp add: enforce_node_consistency_eq)

theorem node_consistency_lengths_witness:
  "enforce_node_consistency (crossing [''AB'', ''C'', ''DEF''])
     (init_domains (crossing [''AB'', ''C'', ''DEF''])) slot_d = [''AB'']"
  using node_consistency_lengths [of slot_d "crossing [''AB'', ''C'', ''DEF'']"
      "init_domains (crossing [''AB'', ''C'', ''DEF''])"]
  by (simp add: crossing_def init_domains_def slot_d_def)

section \<open>Properties of arc revision\<close>

lemma any_agree_defined:
  assumes "i < length x_value" and "\<forall>w \<in> set ydom. j < length w"
  shows "any_agree x_value i j ydom = Inr (\<exists>w \<in> set ydom. x_value ! i = w ! j)"
  using assms by (induction ydom) (auto simp: getitem_def)

lemma collect_unsupported_defined:
  assumes "\<forall>w \<in> set xdom. i < length w" and "\<forall>w \<in> set ydom. j < length w"
  shows "collect_unsupported i j ydom xdom =
           Inr (filter (\<lambda>w. \<not> (\<exists>w' \<in> set ydom. w ! i = w' ! j)) xdom)"
  using assms by (induction xdom) (auto simp: any_agree_defined)

lemma revise_no_overlap:
  "overlaps cw (x, y) = None \<Longrightarrow> revise cw doms x y = Inr (False, doms)"
  by (simp add: revise_def)

lemma revise_defined:
  assumes "overlaps cw (x, y) = Some (i, j)"
    and "\<forall>w \<in> set (doms x). i < length w" and "\<forall>w \<in> set (doms y). j < length w"
  shows "revise cw doms x y =
           Inr (\<exists>w \<in> set (doms x). \<not> (\<exists>w' \<in> set (doms y). w ! i = w' ! j),
                doms(x := filter (\<lambda>w. \<exists>w' \<in> set (doms y). w ! i = w' ! j) (doms x)))"
  using assms
  by (simp add: revise_def collect_unsupported_defined filter_member_imp filter_empty_conv)

text \<open>
  Claim C5. For two distinct slots \<open>x\<close> and \<open>y\<close>: without an overlap \<^verbatim>\<open>revise\<close>
  changes nothing and returns false. With the overlap \<open>(i, j)\<close>, on domains whose words
  reach the overlap positions (as all words do after node consistency), it returns
  normally, the new domain of \<open>x\<close> is the old one without the words that no word of
  \<open>y\<close> agrees with, no other domain changes, and the result is true iff a word was
  removed.
\<close>

theorem revise_removes_unsupported:
  assumes "x \<noteq> y"
  shows "(overlaps cw (x, y) = None \<longrightarrow> revise cw doms x y = Inr (False, doms)) \<and>
         (\<forall>i j. overlaps cw (x, y) = Some (i, j) \<longrightarrow>
            (\<forall>w \<in> set (doms x). i < length w) \<longrightarrow> (\<forall>w \<in> set (doms y). j < length w) \<longrightarrow>
            (\<exists>revised doms'.
               revise cw doms x y = Inr (revised, doms') \<and>
               doms' x = filter (\<lambda>w. \<exists>w' \<in> set (doms y). w ! i = w' ! j) (doms x) \<and>
               doms' y = doms y \<and>
               (\<forall>v. v \<noteq> x \<longrightarrow> doms' v = doms v) \<and>
               (revised \<longleftrightarrow> (\<exists>w \<in> set (doms x). w \<notin> set (doms' x)))))"
  using assms by (auto simp: revise_no_overlap revise_defined)

theorem revise_removes_unsupported_witness:
  "\<exists>doms'. revise (crossing []) (store [''AB'', ''CD''] [''AX'']) slot_a slot_d = Inr (True, doms') \<and>
      doms' slot_a = [''AB''] \<and> doms' slot_d = [''AX'']"
  using revise_removes_unsupported [of slot_a slot_d "crossing []" "store [''AB'', ''CD''] [''AX'']"]
  by (auto simp: crossing_def store_def slot_a_def slot_d_def)

lemma collect_unsupported_again:
  "collect_unsupported i j ydom xdom = Inr to_remove \<Longrightarrow> set to_remove \<subseteq> S \<Longrightarrow>
     collect_unsupported i j ydom (filter (\<lambda>w. w \<notin> S) xdom) = Inr []"
  by (induction xdom arbitrary: to_remove) (auto split: sum.splits if_splits)

text \<open>
  Claim C7. \<^verbatim>\<open>revise\<close> is idempotent: for distinct slots, when a call of
  \<^verbatim>\<open>revise(x, y)\<close> has returned, a second call on the store it left removes nothing
  and returns false.
\<close>

theorem revise_idempotent:
  assumes "x \<noteq> y" and "revise cw doms x y = Inr (revised, doms')"
  shows "revise cw doms' x y = Inr (False, doms')"
proof (cases "overlaps cw (x, y)")
  case None
  with assms show ?thesis
    by (simp add: revise_def)
next
  case (Some ij)
  obtain i j where ij: "ij = (i, j)"
    by (cases ij)
  from assms Some ij obtain to_remove where
    c: "collect_unsupported i j (doms y) (doms x) = Inr to_remove" and
    d: "doms' = doms(x := filter (\<lambda>w. w \<notin> set to_remove) (doms x))"
    by (auto simp: revise_def split: sum.splits)
  have "collect_unsupported i j (doms' y) (doms' x) = Inr []"
    using collect_unsupported_again [OF c subset_refl] assms(1) d by simp
  with Some ij show ?thesis
    by (simp add: revise_def)
qed

theorem revise_idempotent_witness:
  "\<exists>doms'. revise (crossing []) (store [''AB'', ''CD''] [''AX'']) slot_a slot_d = Inr (True, doms') \<and>
      revise (crossing []) doms' slot_a slot_d = Inr (False, doms')"
proof -
  obtain r where r: "revise (crossing []) (store [''AB'', ''CD''] [''AX'']) slot_a slot_d = Inr r"
    by (simp add: revise_def crossing_def store_def slot_a_def slot_d_def getitem_def)
  then have "fst r"
    by (auto simp add: revise_def crossing_def store_def slot_a_def slot_d_def getitem_def)
  with r have r': "revise (crossing []) (store [''AB'', ''CD''] [''AX'']) slot_a slot_d = Inr (True, snd r)"
    by (cases r) simp
  have "slot_a \<noteq> slot_d"
    by (simp add: slot_a_def slot_d_def)
  from revise_idempotent [OF this r'] r' show ?thesis
    by blast
qed

section \<open>Properties of AC-3\<close>

lemma wf_overlap:
  assumes "wf_crossword cw" "x \<in> set (variables cw)" "y \<in> set (variables cw)"
    "overlaps cw (x, y) = Some (i, j)"
  shows "x \<noteq> y \<and> i < var_length x \<and> j < var_length y \<and> overlaps cw (y, x) = Some (j, i)"
proof -
  from assms(1) have "\<forall>x \<in> set (variables cw). \<forall>y \<in> set (variables cw).
      case overlaps cw (x, y) of None \<Rightarrow> True
        | Some (i, j) \<Rightarrow> x \<noteq> y \<and> i < var_length x \<and> j < var_length y \<and> overlaps cw (y, x) = Some (j, i)"
    unfolding wf_crossword_def list_all_iff by blast
  with assms(2,3) have "case overlaps cw (x, y) of None \<Rightarrow> True
        | Some (i, j) \<Rightarrow> x \<noteq> y \<and> i < var_length x \<and> j < var_length y \<and> overlaps cw (y, x) = Some (j, i)"
    by blast
  with assms(4) show ?thesis
    by simp
qed

lemma node_consistentD:
  "node_consistent cw doms \<Longrightarrow> v \<in> set (variables cw) \<Longrightarrow> w \<in> set (doms v) \<Longrightarrow>
     length w = var_length v"
  unfolding node_consistent_def list_all_iff by blast

lemma node_consistent_mono:
  "node_consistent cw doms \<Longrightarrow> (\<And>v. set (doms' v) \<subseteq> set (doms v)) \<Longrightarrow> node_consistent cw doms'"
  unfolding node_consistent_def list_all_iff by blast

lemma neighbors_subset: "set (neighbors cw x) \<subseteq> set (variables cw)"
  by (auto simp: neighbors_def)

lemma revise_total:
  assumes "wf_crossword cw" "node_consistent cw doms"
    "x \<in> set (variables cw)" "y \<in> set (variables cw)"
  shows "\<exists>revised doms'. revise cw doms x y = Inr (revised, doms')"
proof (cases "overlaps cw (x, y)")
  case None
  then show ?thesis by (auto simp: revise_def)
next
  case (Some ij)
  obtain i j where ij: "ij = (i, j)" by (cases ij)
  have b: "i < var_length x \<and> j < var_length y"
    using wf_overlap [OF assms(1,3,4) Some [unfolded ij]] by simp
  have "\<forall>w \<in> set (doms x). i < length w"
    using b node_consistentD [OF assms(2,3)] by simp
  moreover have "\<forall>w \<in> set (doms y). j < length w"
    using b node_consistentD [OF assms(2,4)] by simp
  ultimately have "\<forall>w \<in> set (doms x). i < length w" "\<forall>w \<in> set (doms y). j < length w"
    by blast+
  from revise_defined [OF Some [unfolded ij] this] show ?thesis
    by blast
qed

lemma ac3_loop_total:
  assumes "wf_crossword cw" "node_consistent cw doms"
    "set arcs \<subseteq> set (variables cw) \<times> set (variables cw)"
  shows "\<exists>ok doms'. ac3_loop cw doms arcs = Inr (ok, doms') \<and> node_consistent cw doms' \<and>
           (\<forall>v. set (doms' v) \<subseteq> set (doms v))"
  using assms
proof (induction cw doms arcs rule: ac3_loop.induct)
  case (1 cw doms)
  then show ?case by auto
next
  case (2 cw doms x y arcs)
  from "2.prems" have xy: "x \<in> set (variables cw)" "y \<in> set (variables cw)"
    and arcs: "set arcs \<subseteq> set (variables cw) \<times> set (variables cw)"
    by auto
  from revise_total [OF "2.prems"(1,2) xy] obtain revised doms1
    where r: "revise cw doms x y = Inr (revised, doms1)" by blast
  have sub1: "set (doms1 v) \<subseteq> set (doms v)" for v
    using revise_subset [OF r] .
  have nc1: "node_consistent cw doms1"
    using node_consistent_mono [OF "2.prems"(2)] sub1 by blast
  show ?case
  proof (cases revised)
    case True
    show ?thesis
    proof (cases "doms1 x = []")
      case empty: True
      have "ac3_loop cw doms ((x, y) # arcs) = Inr (False, doms1)"
        using r True empty by simp
      then show ?thesis
        using nc1 sub1 by blast
    next
      case False
      let ?arcs = "arcs @ map (\<lambda>z. (z, x)) (filter (\<lambda>z. z \<noteq> y) (neighbors cw x))"
      have "set ?arcs \<subseteq> set (variables cw) \<times> set (variables cw)"
        using arcs xy neighbors_subset [of cw x] by auto
      from "2.IH"(1) [OF r refl True False "2.prems"(1) nc1 this]
      obtain ok doms' where res: "ac3_loop cw doms1 ?arcs = Inr (ok, doms')"
        and nc: "node_consistent cw doms'" and sub: "\<forall>v. set (doms' v) \<subseteq> set (doms1 v)"
        by blast
      have "ac3_loop cw doms ((x, y) # arcs) = Inr (ok, doms')"
        using r True False res by simp
      moreover have "\<forall>v. set (doms' v) \<subseteq> set (doms v)"
        using sub sub1 by blast
      ultimately show ?thesis
        using nc by blast
    qed
  next
    case False
    from "2.IH"(2) [OF r refl False "2.prems"(1) nc1 arcs]
    obtain ok doms' where res: "ac3_loop cw doms1 arcs = Inr (ok, doms')"
        and nc: "node_consistent cw doms'" and sub: "\<forall>v. set (doms' v) \<subseteq> set (doms1 v)"
        by blast
    have "ac3_loop cw doms ((x, y) # arcs) = Inr (ok, doms')"
      using r False res by simp
    moreover have "\<forall>v. set (doms' v) \<subseteq> set (doms v)"
      using sub sub1 by blast
    ultimately show ?thesis
      using nc by blast
  qed
qed

lemma arc_holds_iff:
  "arc_holds cw doms x y \<longleftrightarrow>
     (\<forall>i j. overlaps cw (x, y) = Some (i, j) \<longrightarrow>
        (\<forall>w \<in> set (doms x). \<exists>w' \<in> set (doms y). w ! i = w' ! j))"
  unfolding arc_holds_def list_all_iff list_ex_iff by (auto split: option.splits)

lemma arc_consistent_iff:
  "arc_consistent cw doms \<longleftrightarrow>
     (\<forall>x \<in> set (variables cw). \<forall>y \<in> set (variables cw). arc_holds cw doms x y)"
  unfolding arc_consistent_def list_all_iff ..

lemma revise_cases:
  assumes "wf_crossword cw" "node_consistent cw doms"
    "x \<in> set (variables cw)" "y \<in> set (variables cw)"
  obtains (no_overlap) "overlaps cw (x, y) = None" "revise cw doms x y = Inr (False, doms)"
  | (overlap) i j where "overlaps cw (x, y) = Some (i, j)" "x \<noteq> y"
      "overlaps cw (y, x) = Some (j, i)"
      "revise cw doms x y =
         Inr (\<exists>w \<in> set (doms x). \<not> (\<exists>w' \<in> set (doms y). w ! i = w' ! j),
              doms(x := filter (\<lambda>w. \<exists>w' \<in> set (doms y). w ! i = w' ! j) (doms x)))"
proof (cases "overlaps cw (x, y)")
  case None
  then show ?thesis
    using no_overlap revise_no_overlap by blast
next
  case (Some ij)
  obtain i j where ij: "ij = (i, j)" by (cases ij)
  have w: "x \<noteq> y \<and> i < var_length x \<and> j < var_length y \<and> overlaps cw (y, x) = Some (j, i)"
    using wf_overlap [OF assms(1,3,4) Some [unfolded ij]] .
  have "\<forall>w \<in> set (doms x). i < length w"
    using w node_consistentD [OF assms(2,3)] by simp
  moreover have "\<forall>w \<in> set (doms y). j < length w"
    using w node_consistentD [OF assms(2,4)] by simp
  ultimately show ?thesis
    using overlap [of i j] revise_defined [OF Some [unfolded ij]] Some ij w by blast
qed

lemma revise_establishes:
  assumes "wf_crossword cw" "node_consistent cw doms"
    "x \<in> set (variables cw)" "y \<in> set (variables cw)"
    "revise cw doms x y = Inr (revised, doms1)"
  shows "arc_holds cw doms1 x y"
  using assms(1-4)
proof (cases rule: revise_cases)
  case no_overlap
  then show ?thesis by (simp add: arc_holds_iff)
next
  case (overlap i j)
  with assms(5) show ?thesis
    by (auto simp: arc_holds_iff)
qed

lemma revise_preserves:
  assumes "wf_crossword cw" "node_consistent cw doms"
    "x \<in> set (variables cw)" "y \<in> set (variables cw)"
    "revise cw doms x y = Inr (revised, doms1)"
    "a \<in> set (variables cw)" "b \<in> set (variables cw)" "arc_holds cw doms a b"
  shows "arc_holds cw doms1 a b \<or> (revised \<and> b = x \<and> a \<noteq> y \<and> a \<in> set (neighbors cw x))"
  using assms(1-4)
proof (cases rule: revise_cases)
  case no_overlap
  with assms(5,8) show ?thesis by simp
next
  case (overlap i j)
  let ?keep = "\<lambda>w. \<exists>w' \<in> set (doms y). w ! i = w' ! j"
  from overlap(4) assms(5) have d1: "doms1 = doms(x := filter ?keep (doms x))"
    and rev: "revised \<longleftrightarrow> (\<exists>w \<in> set (doms x). \<not> ?keep w)"
    by simp_all
  show ?thesis
  proof (cases "b = x")
    case bx: True
    show ?thesis
    proof (cases "a = x")
      case True
      from wf_overlap [OF assms(1,3,3)] have "overlaps cw (x, x) = None"
        by (cases "overlaps cw (x, x)") auto
      with True bx show ?thesis by (simp add: arc_holds_iff)
    next
      case ax: False
      show ?thesis
      proof (cases "a = y")
        case True
        have "arc_holds cw doms1 y x"
          unfolding arc_holds_iff
        proof (intro allI impI ballI)
          fix i' j' w'
          assume o: "overlaps cw (y, x) = Some (i', j')" and w': "w' \<in> set (doms1 y)"
          with overlap(3) have ij: "i' = j" "j' = i" by simp_all
          from w' d1 overlap(2) have w'y: "w' \<in> set (doms y)" by simp
          with assms(8) True bx overlap(3) obtain w where
            w: "w \<in> set (doms x)" "w' ! j = w ! i"
            unfolding arc_holds_iff by blast
          from w(2) have "w ! i = w' ! j" by (rule sym)
          with w'y have "?keep w" by (rule rev_bexI)
          with w d1 have "w \<in> set (doms1 x)" by simp
          with w(2) ij show "\<exists>w \<in> set (doms1 x). w' ! i' = w ! j'" by auto
        qed
        with True bx show ?thesis by simp
      next
        case ay: False
        show ?thesis
        proof (cases "overlaps cw (a, x)")
          case None
          with bx show ?thesis by (simp add: arc_holds_iff)
        next
          case (Some ij)
          with ax assms(6) have nb: "a \<in> set (neighbors cw x)"
            by (simp add: neighbors_def)
          show ?thesis
          proof (cases revised)
            case True
            with nb ay bx show ?thesis by simp
          next
            case False
            with rev have "filter ?keep (doms x) = doms x"
              by (simp add: filter_id_conv)
            with d1 have "doms1 = doms" by simp
            with assms(8) show ?thesis by simp
          qed
        qed
      qed
    qed
  next
    case False
    with assms(8) d1 show ?thesis
      unfolding arc_holds_iff by auto
  qed
qed

lemma ac3_loop_arc_consistent:
  assumes "wf_crossword cw" "node_consistent cw doms"
    "set arcs \<subseteq> set (variables cw) \<times> set (variables cw)"
    "\<forall>a \<in> set (variables cw). \<forall>b \<in> set (variables cw).
        (a, b) \<in> set arcs \<or> arc_holds cw doms a b"
    "ac3_loop cw doms arcs = Inr (True, doms')"
  shows "arc_consistent cw doms'"
  using assms
proof (induction cw doms arcs rule: ac3_loop.induct)
  case (1 cw doms)
  then show ?case by (simp add: arc_consistent_iff)
next
  case (2 cw doms x y arcs)
  let ?V = "set (variables cw)"
  from "2.prems"(3) have xy: "x \<in> ?V" "y \<in> ?V" and arcs: "set arcs \<subseteq> ?V \<times> ?V"
    by auto
  from revise_total [OF "2.prems"(1,2) xy] obtain revised doms1
    where r: "revise cw doms x y = Inr (revised, doms1)" by blast
  have nc1: "node_consistent cw doms1"
    using node_consistent_mono [OF "2.prems"(2)] revise_subset [OF r] by blast
  have est: "arc_holds cw doms1 x y"
    using revise_establishes [OF "2.prems"(1,2) xy r] .
  have pres: "arc_holds cw doms1 a b \<or> (revised \<and> b = x \<and> a \<noteq> y \<and> a \<in> set (neighbors cw x))"
    if "a \<in> ?V" "b \<in> ?V" "arc_holds cw doms a b" for a b
    using revise_preserves [OF "2.prems"(1,2) xy r that] .
  show ?case
  proof (cases revised)
    case True
    show ?thesis
    proof (cases "doms1 x = []")
      case empty: True
      with r True "2.prems"(5) show ?thesis by simp
    next
      case False
      let ?arcs = "arcs @ map (\<lambda>z. (z, x)) (filter (\<lambda>z. z \<noteq> y) (neighbors cw x))"
      have sub: "set ?arcs \<subseteq> ?V \<times> ?V"
        using arcs xy neighbors_subset [of cw x] by auto
      have inv: "\<forall>a \<in> ?V. \<forall>b \<in> ?V. (a, b) \<in> set ?arcs \<or> arc_holds cw doms1 a b"
      proof (intro ballI)
        fix a b assume ab: "a \<in> ?V" "b \<in> ?V"
        from "2.prems"(4) ab consider "(a, b) = (x, y)" | "(a, b) \<in> set arcs" | "arc_holds cw doms a b"
          by auto
        then show "(a, b) \<in> set ?arcs \<or> arc_holds cw doms1 a b"
        proof cases
          case 1
          with est show ?thesis by simp
        next
          case 2
          then show ?thesis by simp
        next
          case 3
          from pres [OF ab 3] show ?thesis by auto
        qed
      qed
      have res: "ac3_loop cw doms1 ?arcs = Inr (True, doms')"
        using r True False "2.prems"(5) by simp
      from "2.IH"(1) [OF r refl True False "2.prems"(1) nc1 sub inv res] show ?thesis .
    qed
  next
    case False
    have inv: "\<forall>a \<in> ?V. \<forall>b \<in> ?V. (a, b) \<in> set arcs \<or> arc_holds cw doms1 a b"
    proof (intro ballI)
      fix a b assume ab: "a \<in> ?V" "b \<in> ?V"
      from "2.prems"(4) ab consider "(a, b) = (x, y)" | "(a, b) \<in> set arcs" | "arc_holds cw doms a b"
        by auto
      then show "(a, b) \<in> set arcs \<or> arc_holds cw doms1 a b"
      proof cases
        case 1
        with est show ?thesis by simp
      next
        case 2
        then show ?thesis by simp
      next
        case 3
        from pres [OF ab 3] False show ?thesis by auto
      qed
    qed
    have res: "ac3_loop cw doms1 arcs = Inr (True, doms')"
      using r False "2.prems"(5) by simp
    from "2.IH"(2) [OF r refl False "2.prems"(1) nc1 arcs inv res] show ?thesis .
  qed
qed



lemma all_arcs_cover:
  assumes "wf_crossword cw"
  shows "set (concat (map (\<lambda>x. map (\<lambda>y. (x, y)) (filter (\<lambda>y. x \<noteq> y) (variables cw)))
                  (variables cw))) \<subseteq> set (variables cw) \<times> set (variables cw)"
    and "\<forall>a \<in> set (variables cw). \<forall>b \<in> set (variables cw).
        (a, b) \<in> set (concat (map (\<lambda>x. map (\<lambda>y. (x, y)) (filter (\<lambda>y. x \<noteq> y) (variables cw)))
                  (variables cw))) \<or> arc_holds cw doms a b"
proof -
  show "set (concat (map (\<lambda>x. map (\<lambda>y. (x, y)) (filter (\<lambda>y. x \<noteq> y) (variables cw)))
                  (variables cw))) \<subseteq> set (variables cw) \<times> set (variables cw)"
    by auto
  have "arc_holds cw doms a a" if "a \<in> set (variables cw)" for a
  proof -
    from wf_overlap [OF assms that that] have "overlaps cw (a, a) = None"
      by (cases "overlaps cw (a, a)") auto
    then show ?thesis by (simp add: arc_holds_iff)
  qed
  then show "\<forall>a \<in> set (variables cw). \<forall>b \<in> set (variables cw).
        (a, b) \<in> set (concat (map (\<lambda>x. map (\<lambda>y. (x, y)) (filter (\<lambda>y. x \<noteq> y) (variables cw)))
                  (variables cw))) \<or> arc_holds cw doms a b"
    by (intro ballI) (case_tac "a = b", auto)
qed

text \<open>
  Claim C2. After a call of \<^verbatim>\<open>ac3\<close> that returns true, every word left in the domain
  of a slot \<open>x\<close> has the length of \<open>x\<close> and, for every slot \<open>y\<close> that overlaps
  \<open>x\<close>, agrees with some word left in the domain of \<open>y\<close> at the overlap. This holds
  for a call that starts from a node-consistent store and whose queue holds every arc
  that does not hold yet: a call without \<^verbatim>\<open>arcs\<close>, or with \<^verbatim>\<open>arcs\<close> on a store
  whose other arcs hold already. A call with fewer arcs returns true and leaves the
  other arcs as they were.
\<close>

theorem ac3_arc_consistency:
  assumes "wf_crossword cw" and "node_consistent cw doms"
    and "case arcs of
           None \<Rightarrow> True
         | Some given \<Rightarrow>
             set given \<subseteq> set (variables cw) \<times> set (variables cw) \<and>
             (\<forall>a \<in> set (variables cw). \<forall>b \<in> set (variables cw).
                (a, b) \<in> set given \<or> arc_holds cw doms a b)"
    and "ac3 cw doms arcs = Inr (True, doms')"
    and "x \<in> set (variables cw)" and "y \<in> set (variables cw)"
    and "overlaps cw (x, y) = Some (i, j)" and "w \<in> set (doms' x)"
  shows "length w = var_length x \<and> (\<exists>w' \<in> set (doms' y). w ! i = w' ! j)"
proof -
  define queue where "queue =
    (case arcs of
       None \<Rightarrow> concat (map (\<lambda>x. map (\<lambda>y. (x, y)) (filter (\<lambda>y. x \<noteq> y) (variables cw)))
                         (variables cw))
     | Some given \<Rightarrow> given)"
  have sub: "set queue \<subseteq> set (variables cw) \<times> set (variables cw)"
    and inv: "\<forall>a \<in> set (variables cw). \<forall>b \<in> set (variables cw).
        (a, b) \<in> set queue \<or> arc_holds cw doms a b"
    using assms(3) all_arcs_cover(1) [OF assms(1)] all_arcs_cover(2) [OF assms(1), of doms]
    unfolding queue_def by (cases arcs; simp)+
  have res: "ac3_loop cw doms queue = Inr (True, doms')"
    using assms(4) unfolding ac3_def queue_def .
  from ac3_loop_total [OF assms(1,2) sub] res have "node_consistent cw doms'"
    by auto
  from node_consistentD [OF this assms(5,8)] have "length w = var_length x" .
  moreover from ac3_loop_arc_consistent [OF assms(1,2) sub inv res] assms(5-8)
  have "\<exists>w' \<in> set (doms' y). w ! i = w' ! j"
    unfolding arc_consistent_iff arc_holds_iff by blast
  ultimately show ?thesis ..
qed

lemma crossing_wf: "wf_crossword (crossing ws)"
  by (simp add: wf_crossword_def crossing_def slot_a_def slot_d_def)

lemma ac3_example:
  "ac3 (crossing []) (store [''AB'', ''CD''] [''AX'']) None = Inr (True, store [''AB''] [''AX''])"
  by (simp add: ac3_def crossing_def store_def slot_a_def slot_d_def revise_def getitem_def
      neighbors_def fun_upd_twist)

theorem ac3_arc_consistency_witness:
  "ac3 (crossing []) (store [''AB'', ''CD''] [''AX'']) None = Inr (True, store [''AB''] [''AX'']) \<and>
   length ''AB'' = var_length slot_a \<and>
   (\<exists>w' \<in> set (store [''AB''] [''AX''] slot_d). ''AB'' ! 0 = w' ! 0)"
proof -
  have "node_consistent (crossing []) (store [''AB'', ''CD''] [''AX''])"
    by (simp add: node_consistent_def crossing_def store_def slot_a_def slot_d_def)
  from ac3_arc_consistency [OF crossing_wf this _ ac3_example, of slot_a slot_d 0 0 "''AB''"]
  show ?thesis
    using ac3_example by (simp add: crossing_def store_def slot_a_def slot_d_def)
qed

text \<open>
  On a store in which the arc from the across slot to the down slot does not hold, a
  call of \<^verbatim>\<open>ac3\<close> with the opposite arc alone returns true and changes nothing.
\<close>

theorem ac3_given_arcs_counterexample:
  "ac3 (crossing []) (store [''AB'', ''CD''] [''AX'']) (Some [(slot_d, slot_a)])
     = Inr (True, store [''AB'', ''CD''] [''AX'']) \<and>
   overlaps (crossing []) (slot_a, slot_d) = Some (0, 0) \<and>
   ''CD'' \<in> set (store [''AB'', ''CD''] [''AX''] slot_a) \<and>
   \<not> (\<exists>w' \<in> set (store [''AB'', ''CD''] [''AX''] slot_d). ''CD'' ! 0 = w' ! 0)"
  by (simp add: ac3_def crossing_def store_def slot_a_def slot_d_def revise_def getitem_def)

text \<open>
  What the result of the loop tells: it is true exactly when no domain that held a
  word at the start is empty at the end.
\<close>

lemma ac3_loop_subset:
  "ac3_loop cw doms arcs = Inr (ok, doms') \<Longrightarrow> set (doms' v) \<subseteq> set (doms v)"
proof (induction cw doms arcs rule: ac3_loop.induct)
  case (1 cw doms)
  then show ?case by simp
next
  case (2 cw doms x y arcs)
  from "2.prems" obtain revised doms1 where r: "revise cw doms x y = Inr (revised, doms1)"
    by (auto split: sum.splits)
  note sub = revise_subset [OF r, of v]
  show ?case
  proof (cases revised)
    case True
    show ?thesis
    proof (cases "doms1 x = []")
      case empty: True
      with r True "2.prems" sub show ?thesis by simp
    next
      case False
      with r True "2.prems" "2.IH"(1) [OF r refl True False] sub show ?thesis
        by auto
    qed
  next
    case False
    with r "2.prems" "2.IH"(2) [OF r refl False] sub show ?thesis
      by auto
  qed
qed

lemma ac3_loop_true_iff:
  "ac3_loop cw doms arcs = Inr (ok, doms') \<Longrightarrow>
     ok \<longleftrightarrow> (\<forall>v. doms v \<noteq> [] \<longrightarrow> doms' v \<noteq> [])"
proof (induction cw doms arcs rule: ac3_loop.induct)
  case (1 cw doms)
  then show ?case by auto
next
  case (2 cw doms x y arcs)
  from "2.prems" obtain revised doms1 where r: "revise cw doms x y = Inr (revised, doms1)"
    by (auto split: sum.splits)
  show ?case
  proof (cases revised)
    case True
    from r True have "revise cw doms x y = Inr (True, doms1)" by simp
    from revise_shrinks [OF this] have ne: "doms x \<noteq> []" by auto
    show ?thesis
    proof (cases "doms1 x = []")
      case empty: True
      with r \<open>revised\<close> "2.prems" have "\<not> ok" "doms' = doms1" by simp_all
      with empty ne show ?thesis by auto
    next
      case False
      with r True "2.prems" have res: "ac3_loop cw doms1
          (arcs @ map (\<lambda>z. (z, x)) (filter (\<lambda>z. z \<noteq> y) (neighbors cw x))) = Inr (ok, doms')"
        by simp
      from "2.IH"(1) [OF r refl True False res]
      have IH: "ok \<longleftrightarrow> (\<forall>v. doms1 v \<noteq> [] \<longrightarrow> doms' v \<noteq> [])" .
      have "doms1 v \<noteq> [] \<longleftrightarrow> doms v \<noteq> []" for v
        using revise_frame [OF r, of v] ne False by (cases "v = x") auto
      with IH show ?thesis by simp
    qed
  next
    case False
    with r "2.prems" revise_unrevised [of cw doms x y doms1]
    have "doms1 = doms" "ac3_loop cw doms1 arcs = Inr (ok, doms')" by simp_all
    with "2.IH"(2) [OF r refl False] show ?thesis by simp
  qed
qed

text \<open>
  Claim C4. \<^verbatim>\<open>ac3\<close> tests for an empty domain only after a revision that removed a
  word. A domain that is empty when the call starts is never revised: for a lone slot
  of length two and the vocabulary \<open>{ABC}\<close>, node consistency empties the domain and
  \<^verbatim>\<open>ac3\<close> then returns true, with the domain empty.
\<close>

theorem ac3_true_with_empty_domain:
  "\<exists>doms'. ac3 (lone [''ABC''])
       (enforce_node_consistency (lone [''ABC'']) (init_domains (lone [''ABC'']))) None
         = Inr (True, doms') \<and> doms' slot_a = []"
  by (simp add: ac3_def lone_def enforce_node_consistency_def init_domains_def slot_a_def)

section \<open>Properties of the search\<close>

lemma assignment_okD:
  assumes "assignment_ok cw assignment" "map_of assignment v = Some w"
  shows "v \<in> set (variables cw)" "length w = var_length v"
  using assms map_of_SomeD [OF assms(2)]
  unfolding assignment_ok_def list_all_iff by auto

lemma assignment_ok_items:
  assumes "assignment_ok cw assignment" "(v, w) \<in> set assignment"
  shows "map_of assignment v = Some w"
  using assms unfolding assignment_ok_def by simp

lemma set_update_subset:
  "set (AList.update k v al) \<subseteq> insert (k, v) (set al)"
  by (induction al) auto

lemma assignment_ok_update:
  assumes "assignment_ok cw assignment" "var \<in> set (variables cw)" "length value = var_length var"
  shows "assignment_ok cw (AList.update var value assignment)"
  using assms set_update_subset [of var "value" assignment]
  unfolding assignment_ok_def list_all_iff
  by (auto simp: distinct_update)

lemma agrees_with_neighbors_defined:
  assumes "\<forall>n \<in> set ns. \<forall>nv i j. map_of assignment n = Some nv \<longrightarrow>
             overlaps cw (var, n) = Some (i, j) \<longrightarrow> i < length value \<and> j < length nv"
  shows "agrees_with_neighbors cw assignment var value ns =
           Inr (\<forall>n \<in> set ns. \<forall>nv i j. map_of assignment n = Some nv \<longrightarrow>
                  overlaps cw (var, n) = Some (i, j) \<longrightarrow> value ! i = nv ! j)"
  using assms
proof (induction ns)
  case Nil
  then show ?case by simp
next
  case (Cons n ns)
  then have IH: "agrees_with_neighbors cw assignment var value ns =
           Inr (\<forall>n \<in> set ns. \<forall>nv i j. map_of assignment n = Some nv \<longrightarrow>
                  overlaps cw (var, n) = Some (i, j) \<longrightarrow> value ! i = nv ! j)"
    by simp
  show ?case
  proof (cases "map_of assignment n")
    case None
    with IH show ?thesis by simp
  next
    case (Some nv)
    show ?thesis
    proof (cases "overlaps cw (var, n)")
      case None
      with Some IH show ?thesis by simp
    next
      case o: (Some ij)
      obtain i j where ij: "ij = (i, j)" by (cases ij)
      from Cons.prems Some o ij have "i < length value" "j < length nv"
        by auto
      with Some o ij IH show ?thesis
        by (auto simp: getitem_def)
    qed
  qed
qed

lemma mem_neighbors:
  "n \<in> set (neighbors cw var) \<longleftrightarrow>
     n \<in> set (variables cw) \<and> n \<noteq> var \<and> overlaps cw (n, var) \<noteq> None"
  by (auto simp: neighbors_def)

lemma neighbors_agree_iff:
  assumes "wf_crossword cw" "assignment_ok cw assignment" "var \<in> set (variables cw)"
  shows "(\<forall>n \<in> set (neighbors cw var). \<forall>nv i j. map_of assignment n = Some nv \<longrightarrow>
            overlaps cw (var, n) = Some (i, j) \<longrightarrow> value ! i = nv ! j) \<longleftrightarrow>
         list_all (\<lambda>(y, wy). case overlaps cw (var, y) of None \<Rightarrow> True
                     | Some (i, j) \<Rightarrow> value ! i = wy ! j) assignment"
    (is "?L \<longleftrightarrow> ?R")
proof
  assume L: ?L
  show ?R
    unfolding list_all_iff
  proof (intro ballI, clarify)
    fix y wy assume m: "(y, wy) \<in> set assignment"
    from assignment_ok_items [OF assms(2) m] have my: "map_of assignment y = Some wy" .
    from assignment_okD(1) [OF assms(2) my] have yV: "y \<in> set (variables cw)" .
    show "case overlaps cw (var, y) of None \<Rightarrow> True | Some (i, j) \<Rightarrow> value ! i = wy ! j"
    proof (cases "overlaps cw (var, y)")
      case None
      then show ?thesis by simp
    next
      case (Some ij)
      obtain i j where ij: "ij = (i, j)" by (cases ij)
      from wf_overlap [OF assms(1,3) yV Some [unfolded ij]]
      have "y \<in> set (neighbors cw var)"
        using yV by (auto simp: mem_neighbors)
      with L my Some ij show ?thesis by auto
    qed
  qed
next
  assume R: ?R
  show ?L
  proof (intro ballI allI impI)
    fix n nv i j
    assume "map_of assignment n = Some nv" and o: "overlaps cw (var, n) = Some (i, j)"
    then have "(n, nv) \<in> set assignment" by (simp add: map_of_SomeD)
    with R o show "value ! i = nv ! j"
      unfolding list_all_iff by fastforce
  qed
qed

lemma consistent_items_defined:
  assumes "wf_crossword cw" "assignment_ok cw assignment" "set items \<subseteq> set assignment"
  shows "consistent_items cw assignment items =
           Inr (list_all (\<lambda>(x, wx). list_all (\<lambda>(y, wy).
                  case overlaps cw (x, y) of None \<Rightarrow> True | Some (i, j) \<Rightarrow> wx ! i = wy ! j)
                assignment) items)"
  using assms(3)
proof (induction items)
  case Nil
  then show ?case by simp
next
  case (Cons item items)
  obtain var "value" where item: "item = (var, value)" by (cases item)
  with Cons.prems have m: "map_of assignment var = Some value"
    using assignment_ok_items [OF assms(2)] by simp
  note ok = assignment_okD [OF assms(2) m]
  have "\<forall>n \<in> set (neighbors cw var). \<forall>nv i j. map_of assignment n = Some nv \<longrightarrow>
          overlaps cw (var, n) = Some (i, j) \<longrightarrow> i < length value \<and> j < length nv"
  proof (intro ballI allI impI)
    fix n nv i j
    assume n: "n \<in> set (neighbors cw var)" and mn: "map_of assignment n = Some nv"
      and o: "overlaps cw (var, n) = Some (i, j)"
    from n have nV: "n \<in> set (variables cw)" by (simp add: mem_neighbors)
    from wf_overlap [OF assms(1) ok(1) nV o] ok(2) assignment_okD(2) [OF assms(2) mn]
    show "i < length value \<and> j < length nv" by simp
  qed
  from agrees_with_neighbors_defined [OF this]
  have "agrees_with_neighbors cw assignment var value (neighbors cw var) =
          Inr (list_all (\<lambda>(y, wy). case overlaps cw (var, y) of None \<Rightarrow> True
                     | Some (i, j) \<Rightarrow> value ! i = wy ! j) assignment)"
    unfolding neighbors_agree_iff [OF assms(1,2) ok(1)] .
  moreover from Cons have "consistent_items cw assignment items =
           Inr (list_all (\<lambda>(x, wx). list_all (\<lambda>(y, wy).
                  case overlaps cw (x, y) of None \<Rightarrow> True | Some (i, j) \<Rightarrow> wx ! i = wy ! j)
                assignment) items)"
    by simp
  ultimately show ?case
    using item ok(2) by simp
qed

lemma consistent_defined:
  assumes "wf_crossword cw" "assignment_ok cw assignment"
  shows "consistent cw assignment =
           Inr (distinct (map snd assignment) \<and> overlaps_agree cw assignment)"
  using consistent_items_defined [OF assms subset_refl]
  by (simp add: consistent_def overlaps_agree_def)

lemma count_in_domain_defined:
  assumes "i < length value" "\<forall>nv \<in> set ds. j < length nv"
  shows "\<exists>n. count_in_domain value i j ds conflicts = Inr n"
  using assms by (induction ds arbitrary: conflicts) (auto simp: getitem_def)

lemma count_over_neighbors_defined:
  assumes "\<forall>n \<in> set ns. \<forall>i j. overlaps cw (var, n) = Some (i, j) \<longrightarrow>
             i < length value \<and> (\<forall>nv \<in> set (doms n). j < length nv)"
  shows "\<exists>k. count_over_neighbors cw doms var assignment value ns conflicts = Inr k"
  using assms
proof (induction ns arbitrary: conflicts)
  case Nil
  then show ?case by simp
next
  case (Cons n ns)
  then have IH: "\<exists>k. count_over_neighbors cw doms var assignment value ns c = Inr k" for c
    by simp
  show ?case
  proof (cases "map_of assignment n = None \<and> overlaps cw (var, n) \<noteq> None")
    case False
    with IH [of conflicts] show ?thesis
      by (cases "overlaps cw (var, n)") auto
  next
    case True
    then obtain i j where o: "overlaps cw (var, n) = Some (i, j)" by auto
    with Cons.prems have "i < length value" "\<forall>nv \<in> set (doms n). j < length nv"
      by auto
    from count_in_domain_defined [OF this] obtain c where
      "count_in_domain value i j (doms n) conflicts = Inr c" by blast
    with True o IH [of c] show ?thesis by simp
  qed
qed

lemma count_conflicts_defined:
  assumes "wf_crossword cw" "node_consistent cw doms" "var \<in> set (variables cw)"
    "length value = var_length var"
  shows "\<exists>k. count_conflicts cw doms var assignment value = Inr k"
  unfolding count_conflicts_def
proof (rule count_over_neighbors_defined, intro ballI allI impI)
  fix n i j
  assume n: "n \<in> set (neighbors cw var)" and o: "overlaps cw (var, n) = Some (i, j)"
  from n have nV: "n \<in> set (variables cw)" by (simp add: mem_neighbors)
  from wf_overlap [OF assms(1,3) nV o] assms(4) node_consistentD [OF assms(2) nV]
  show "i < length value \<and> (\<forall>nv \<in> set (doms n). j < length nv)" by simp
qed

lemma with_keys_defined:
  assumes "\<forall>x \<in> set xs. \<exists>k. key x = Inr k"
  shows "\<exists>kxs. with_keys key xs = Inr kxs \<and> map snd kxs = xs"
  using assms by (induction xs) auto

lemma order_domain_values_defined:
  assumes "wf_crossword cw" "node_consistent cw doms" "var \<in> set (variables cw)"
  shows "\<exists>vals. order_domain_values cw doms var assignment = Inr vals \<and>
           set vals = set (doms var)"
proof -
  have "\<forall>value \<in> set (doms var). \<exists>k. count_conflicts cw doms var assignment value = Inr k"
    using count_conflicts_defined [OF assms] node_consistentD [OF assms(2,3)] by blast
  from with_keys_defined [OF this] obtain kxs where
    k: "with_keys (count_conflicts cw doms var assignment) (doms var) = Inr kxs"
    and m: "map snd kxs = doms var" by blast
  have "set (map snd (sort_key fst kxs)) = set (map snd kxs)"
    by simp
  with k m show ?thesis
    by (simp add: order_domain_values_def)
qed

lemma min_by_key_defined:
  "xs \<noteq> [] \<Longrightarrow> \<exists>v. min_by_key key xs = Inr v"
  by (cases xs) auto

lemma select_unassigned_variable_defined:
  assumes "\<not> assignment_complete cw assignment"
  shows "\<exists>var. select_unassigned_variable cw doms assignment = Inr var"
proof -
  from assms have "filter (\<lambda>var. map_of assignment var = None) (variables cw) \<noteq> []"
    unfolding assignment_complete_def list_all_iff filter_empty_conv by auto
  from min_by_key_defined [OF this] show ?thesis
    unfolding select_unassigned_variable_def Let_def .
qed

lemma search_post_weaken:
  assumes "search_post cw doms1 assignment extra1 result doms'"
    "\<forall>v. set (doms1 v) \<subseteq> set (doms v)" "extra1 \<subseteq> extra"
  shows "search_post cw doms assignment extra result doms'"
  using assms unfolding search_post_def by (fastforce)

lemma search_post_absorb:
  assumes "search_post cw doms assignment extra result doms'"
    "\<forall>(v, w) \<in> extra. w \<in> set (doms v)"
  shows "search_post cw doms assignment {} result doms'"
  unfolding search_post_def
proof (intro conjI allI impI)
  fix a v w assume "result = Some a" "map_of a v = Some w"
  with assms(1) have "map_of assignment v = Some w \<or> w \<in> set (doms v) \<or> (v, w) \<in> extra"
    unfolding search_post_def by blast
  with assms(2) show "map_of assignment v = Some w \<or> w \<in> set (doms v) \<or> (v, w) \<in> {}"
    by blast
qed (use assms(1) in \<open>auto simp: search_post_def\<close>)

lemma ac3_neighbors_total:
  assumes "wf_crossword cw" "node_consistent cw doms" "var \<in> set (variables cw)"
  shows "\<exists>ok doms'. ac3 cw doms (Some (map (\<lambda>neighbor. (var, neighbor)) (neighbors cw var)))
            = Inr (ok, doms') \<and> node_consistent cw doms' \<and> (\<forall>v. set (doms' v) \<subseteq> set (doms v))"
proof -
  have "set (map (\<lambda>neighbor. (var, neighbor)) (neighbors cw var))
          \<subseteq> set (variables cw) \<times> set (variables cw)"
    using assms(3) neighbors_subset [of cw var] by auto
  from ac3_loop_total [OF assms(1,2) this] show ?thesis
    by (simp add: ac3_def)
qed

lemma backtrack_total:
  shows "wf_crossword cw \<Longrightarrow> node_consistent cw doms \<Longrightarrow> assignment_ok cw assignment \<Longrightarrow>
           \<exists>result doms'. backtrack cw doms assignment = Inr (result, doms') \<and>
              search_post cw doms assignment {} result doms'"
    and "wf_crossword cw \<Longrightarrow> node_consistent cw doms \<Longrightarrow> assignment_ok cw assignment \<Longrightarrow>
           var \<in> set (variables cw) \<Longrightarrow> \<forall>w \<in> set vals. length w = var_length var \<Longrightarrow>
           \<exists>result doms'. backtrack_values cw doms assignment var vals = Inr (result, doms') \<and>
              search_post cw doms assignment ({var} \<times> set vals) result doms' \<and>
              (\<forall>a. result = Some a \<longrightarrow> consistent cw a = Inr True \<and> a \<noteq> [])"
proof (induction cw doms assignment and cw doms assignment var vals
    rule: backtrack_backtrack_values.induct)
  case (1 cw doms assignment)
  show ?case
  proof (cases "assignment_complete cw assignment")
    case True
    then have "backtrack cw doms assignment = Inr (Some assignment, doms)"
      by (simp add: backtrack.simps)
    moreover have "search_post cw doms assignment {} (Some assignment) doms"
      using True "1.prems" by (simp add: search_post_def)
    ultimately show ?thesis by blast
  next
    case False
    from select_unassigned_variable_defined [OF False] obtain var where
      sel: "select_unassigned_variable cw doms assignment = Inr var" by blast
    from select_unassigned_variable_member [OF sel] have var: "var \<in> set (variables cw)"
      by simp
    from order_domain_values_defined [OF "1.prems"(1,2) var] obtain vals where
      ord: "order_domain_values cw doms var assignment = Inr vals"
      and vals: "set vals = set (doms var)" by blast
    have len: "\<forall>w \<in> set vals. length w = var_length var"
      using vals node_consistentD [OF "1.prems"(2) var] by simp
    from "1.IH" [OF False sel ord "1.prems" var len] obtain result doms' where
      res: "backtrack_values cw doms assignment var vals = Inr (result, doms')"
      and post: "search_post cw doms assignment ({var} \<times> set vals) result doms'"
      and cons: "\<forall>a. result = Some a \<longrightarrow> consistent cw a = Inr True \<and> a \<noteq> []"
      by blast
    have "backtrack cw doms assignment = Inr (result, doms')"
      using False sel ord res by (simp add: backtrack.simps)
    moreover have "search_post cw doms assignment {} result doms'"
      using search_post_absorb [OF post] vals by simp
    ultimately show ?thesis by blast
  qed
next
  case (2 cw doms assignment var)
  then show ?case
    by (simp add: search_post_def)
next
  case (3 cw doms assignment var "value" vals)
  let ?new = "AList.update var value assignment"
  let ?arcs = "Some (map (\<lambda>neighbor. (var, neighbor)) (neighbors cw var))"
  note wf = "3.prems"(1) and nc = "3.prems"(2) and ok = "3.prems"(3) and var = "3.prems"(4)
  from "3.prems"(5) have len: "length value = var_length var"
    and lens: "\<forall>w \<in> set vals. length w = var_length var" by simp_all
  have ok_new: "assignment_ok cw ?new"
    using assignment_ok_update [OF ok var len] .
  have ex: "{var} \<times> set vals \<subseteq> {var} \<times> set (value # vals)" by auto
  have lift: "\<exists>result doms'. backtrack_values cw doms assignment var (value # vals) = Inr (result, doms') \<and>
              search_post cw doms assignment ({var} \<times> set (value # vals)) result doms' \<and>
              (\<forall>a. result = Some a \<longrightarrow> consistent cw a = Inr True \<and> a \<noteq> [])"
    if eq: "backtrack_values cw doms assignment var (value # vals)
              = backtrack_values cw doms1 assignment var vals"
      and sub: "\<forall>v. set (doms1 v) \<subseteq> set (doms v)"
      and rest: "\<exists>result doms'. backtrack_values cw doms1 assignment var vals = Inr (result, doms') \<and>
              search_post cw doms1 assignment ({var} \<times> set vals) result doms' \<and>
              (\<forall>a. result = Some a \<longrightarrow> consistent cw a = Inr True \<and> a \<noteq> [])"
    for doms1
  proof -
    from rest obtain result doms' where
      r: "backtrack_values cw doms1 assignment var vals = Inr (result, doms')"
      and p: "search_post cw doms1 assignment ({var} \<times> set vals) result doms'"
      and c: "\<forall>a. result = Some a \<longrightarrow> consistent cw a = Inr True \<and> a \<noteq> []"
      by blast
    from search_post_weaken [OF p sub ex] r c eq show ?thesis
      by auto
  qed
  show ?case
  proof (cases "consistent cw ?new = Inr True")
    case False
    with consistent_defined [OF wf ok_new] have c: "consistent cw ?new = Inr False"
      by auto
    have eq: "backtrack_values cw doms assignment var (value # vals)
              = backtrack_values cw doms assignment var vals"
      using c by (simp add: Let_def)
    from "3.IH"(5) [OF refl c _ wf nc ok var lens]
    show ?thesis
      by (intro lift [OF eq]) auto
  next
    case c: True
    from ac3_neighbors_total [OF wf nc var] obtain arc_ok doms1 where
      a: "ac3 cw doms ?arcs = Inr (arc_ok, doms1)" and nc1: "node_consistent cw doms1"
      and sub1: "\<forall>v. set (doms1 v) \<subseteq> set (doms v)" by blast
    show ?thesis
    proof (cases arc_ok)
      case False
      have eq: "backtrack_values cw doms assignment var (value # vals)
              = backtrack_values cw doms1 assignment var vals"
        using c a False by (simp add: Let_def)
      from "3.IH"(4) [OF refl c _ a refl False wf nc1 ok var lens]
      show ?thesis
        by (intro lift [OF eq sub1]) auto
    next
      case True
      from "3.IH"(1) [OF refl c _ a refl True wf nc1 ok_new] obtain r2 doms2 where
        b: "backtrack cw doms1 ?new = Inr (r2, doms2)"
        and p2: "search_post cw doms1 ?new {} r2 doms2"
        by auto
      from p2 have nc2: "node_consistent cw doms2"
        and sub2: "\<forall>v. set (doms2 v) \<subseteq> set (doms1 v)"
        unfolding search_post_def by simp_all
      from sub1 sub2 have sub12: "\<forall>v. set (doms2 v) \<subseteq> set (doms v)" by blast
      show ?thesis
      proof (cases "\<exists>found. r2 = Some found \<and> found \<noteq> []")
        case found: True
        then obtain found where f: "r2 = Some found" "found \<noteq> []" by blast
        have res: "backtrack_values cw doms assignment var (value # vals) = Inr (Some found, doms2)"
          using c a True b f by (simp add: Let_def)
        from p2 f have fc: "assignment_complete cw found" and fo: "assignment_ok cw found"
          and fd: "found = ?new \<or> (consistent cw found = Inr True \<and> found \<noteq> [])"
          and fp: "\<forall>v w. map_of found v = Some w \<longrightarrow>
                      map_of ?new v = Some w \<or> w \<in> set (doms1 v)"
          unfolding search_post_def by auto
        from fd c f have fcons: "consistent cw found = Inr True" by auto
        have prov: "\<forall>v w. map_of found v = Some w \<longrightarrow>
             map_of assignment v = Some w \<or> w \<in> set (doms v) \<or> (v, w) \<in> {var} \<times> set (value # vals)"
        proof (intro allI impI)
          fix v w assume "map_of found v = Some w"
          with fp have "map_of ?new v = Some w \<or> w \<in> set (doms1 v)" by blast
          then show "map_of assignment v = Some w \<or> w \<in> set (doms v) \<or>
                       (v, w) \<in> {var} \<times> set (value # vals)"
            using sub1 by (auto simp: update_conv' split: if_splits)
        qed
        have "search_post cw doms assignment ({var} \<times> set (value # vals)) (Some found) doms2"
          unfolding search_post_def using nc2 sub12 fc fo fcons f(2) prov by simp
        with res fcons f(2) show ?thesis by simp
      next
        case False
        have eq: "backtrack_values cw doms assignment var (value # vals)
              = backtrack_values cw doms2 assignment var vals"
          using c a True b False by (cases r2) (simp_all add: Let_def)
        show ?thesis
        proof (cases r2)
          case None
          from "3.IH"(2) [OF refl c _ a refl True b refl None wf nc2 ok var lens]
          show ?thesis
            by (intro lift [OF eq sub12]) auto
        next
          case (Some found)
          with False have "\<not> found \<noteq> []" by simp
          from "3.IH"(3) [OF refl c _ a refl True b refl Some this wf nc2 ok var lens]
          show ?thesis
            by (intro lift [OF eq sub12]) auto
        qed
      qed
    qed
  qed
qed

text \<open>
  Claim C10. When the puzzle has no slot, \<^verbatim>\<open>solve\<close> returns the empty assignment,
  which is a result and not \<^verbatim>\<open>None\<close>, and leaves the store as it was.
\<close>

theorem solve_without_slots:
  "variables cw = [] \<Longrightarrow> solve cw doms = Inr (Some [], doms)"
  by (simp add: solve_def enforce_node_consistency_def ac3_def backtrack.simps
      assignment_complete_def)

theorem solve_without_slots_witness:
  "solve (blank [''AB'']) (init_domains (blank [''AB''])) = Inr (Some [], init_domains (blank [''AB'']))"
  using solve_without_slots [of "blank [''AB'']" "init_domains (blank [''AB''])"]
  by (simp add: blank_def)

lemma node_consistent_enforce:
  "node_consistent cw (enforce_node_consistency cw doms)"
  unfolding node_consistent_def list_all_iff
  by (simp add: enforce_node_consistency_eq)

lemma enforce_subset:
  "set (enforce_node_consistency cw doms v) \<subseteq> set (doms v)"
  by (simp add: enforce_node_consistency_eq)

lemma ac3_all_total:
  assumes "wf_crossword cw" "node_consistent cw doms"
  shows "\<exists>ok doms'. ac3 cw doms None = Inr (ok, doms') \<and> node_consistent cw doms' \<and>
           (\<forall>v. set (doms' v) \<subseteq> set (doms v))"
  using ac3_loop_total [OF assms all_arcs_cover(1) [OF assms(1)]]
  by (simp add: ac3_def)

lemma assignment_ok_empty: "assignment_ok cw []"
  by (simp add: assignment_ok_def)

lemma consistent_empty: "consistent cw [] = Inr True"
  by (simp add: consistent_def)

lemma solve_total:
  assumes "wf_crossword cw"
  shows "\<exists>result doms'. solve cw doms = Inr (result, doms') \<and>
           node_consistent cw doms' \<and> (\<forall>v. set (doms' v) \<subseteq> set (doms v)) \<and>
           (\<forall>a. result = Some a \<longrightarrow>
              assignment_complete cw a \<and> assignment_ok cw a \<and> consistent cw a = Inr True \<and>
              (\<forall>v w. map_of a v = Some w \<longrightarrow> w \<in> set (doms v)))"
proof -
  let ?d0 = "enforce_node_consistency cw doms"
  from ac3_all_total [OF assms node_consistent_enforce] obtain ok d1 where
    a: "ac3 cw ?d0 None = Inr (ok, d1)" and nc1: "node_consistent cw d1"
    and sub1: "\<forall>v. set (d1 v) \<subseteq> set (?d0 v)" by blast
  from backtrack_total(1) [OF assms nc1 assignment_ok_empty] obtain result d2 where
    b: "backtrack cw d1 [] = Inr (result, d2)" and post: "search_post cw d1 [] {} result d2"
    by blast
  have s: "solve cw doms = Inr (result, d2)"
    using a b by (simp add: solve_def)
  from post have nc2: "node_consistent cw d2" and sub2: "\<forall>v. set (d2 v) \<subseteq> set (d1 v)"
    unfolding search_post_def by simp_all
  have sub: "\<forall>v. set (d1 v) \<subseteq> set (doms v)"
    using sub1 enforce_subset [of cw doms] by blast
  with sub2 have sub': "\<forall>v. set (d2 v) \<subseteq> set (doms v)" by blast
  have "assignment_complete cw a \<and> assignment_ok cw a \<and> consistent cw a = Inr True \<and>
              (\<forall>v w. map_of a v = Some w \<longrightarrow> w \<in> set (doms v))" if "result = Some a" for a
  proof -
    from post that have c: "assignment_complete cw a" and o: "assignment_ok cw a"
      and d: "a = [] \<or> (consistent cw a = Inr True \<and> a \<noteq> [])"
      and p: "\<forall>v w. map_of a v = Some w \<longrightarrow> w \<in> set (d1 v)"
      unfolding search_post_def by auto
    from d consistent_empty have "consistent cw a = Inr True" by auto
    with c o p sub show ?thesis by blast
  qed
  with s nc2 sub' show ?thesis by blast
qed

lemma solve_example:
  "(case solve (crossing [''AB'', ''CD'', ''AX'']) (init_domains (crossing [''AB'', ''CD'', ''AX''])) of
      Inr (Some a, d) \<Rightarrow> a = [(slot_a, ''AB''), (slot_d, ''AX'')]
    | _ \<Rightarrow> False)"
  by code_simp

lemma backtrack_example:
  "(case backtrack (crossing []) (store [''AB''] [''CD'']) [] of
      Inr (None, d) \<Rightarrow> d slot_a = [] \<and> d slot_d = [''CD'']
    | _ \<Rightarrow> False)"
  by code_simp

text \<open>
  Claim C3. On a well-formed puzzle \<^verbatim>\<open>solve\<close> raises no exception. When it returns an
  assignment, every slot has a word, the assignment passes \<^verbatim>\<open>consistent\<close> (the words
  are pairwise distinct, each has the length of its slot and is a word of the
  vocabulary, and the words of overlapping slots agree in the shared cell). When no
  complete assignment passes \<^verbatim>\<open>consistent\<close>, the result is \<^verbatim>\<open>None\<close>.
\<close>

theorem solve_result_complete_consistent:
  assumes "wf_crossword cw"
  shows "\<exists>result doms'. solve cw (init_domains cw) = Inr (result, doms') \<and>
     (\<forall>a. result = Some a \<longrightarrow>
         assignment_complete cw a \<and> consistent cw a = Inr True \<and>
         distinct (map snd a) \<and>
         (\<forall>(v, w) \<in> set a. v \<in> set (variables cw) \<and> length w = var_length v \<and> w \<in> set (words cw)) \<and>
         overlaps_agree cw a) \<and>
     ((\<nexists>a. assignment_complete cw a \<and> consistent cw a = Inr True) \<longrightarrow> result = None)"
proof -
  from solve_total [OF assms, of "init_domains cw"] obtain result doms' where
    s: "solve cw (init_domains cw) = Inr (result, doms')"
    and r: "\<forall>a. result = Some a \<longrightarrow>
              assignment_complete cw a \<and> assignment_ok cw a \<and> consistent cw a = Inr True \<and>
              (\<forall>v w. map_of a v = Some w \<longrightarrow> w \<in> set (init_domains cw v))"
    by blast
  have good: "assignment_complete cw a \<and> consistent cw a = Inr True \<and>
         distinct (map snd a) \<and>
         (\<forall>(v, w) \<in> set a. v \<in> set (variables cw) \<and> length w = var_length v \<and> w \<in> set (words cw)) \<and>
         overlaps_agree cw a" if "result = Some a" for a
  proof -
    from r that have c: "assignment_complete cw a" and o: "assignment_ok cw a"
      and k: "consistent cw a = Inr True"
      and p: "\<forall>v w. map_of a v = Some w \<longrightarrow> w \<in> set (words cw)"
      by (auto simp: init_domains_def)
    from k consistent_defined [OF assms o] have "distinct (map snd a)" "overlaps_agree cw a"
      by simp_all
    moreover have "\<forall>(v, w) \<in> set a. v \<in> set (variables cw) \<and> length w = var_length v \<and> w \<in> set (words cw)"
      using assignment_ok_items [OF o] assignment_okD [OF o] p by blast
    ultimately show ?thesis using c k by blast
  qed
  then have "(\<nexists>a. assignment_complete cw a \<and> consistent cw a = Inr True) \<longrightarrow> result = None"
    by (cases result) blast+
  with s good show ?thesis by blast
qed

theorem solve_result_complete_consistent_witness:
  "\<exists>doms'. solve (crossing [''AB'', ''CD'', ''AX'']) (init_domains (crossing [''AB'', ''CD'', ''AX'']))
       = Inr (Some [(slot_a, ''AB''), (slot_d, ''AX'')], doms') \<and>
     assignment_complete (crossing [''AB'', ''CD'', ''AX'']) [(slot_a, ''AB''), (slot_d, ''AX'')] \<and>
     consistent (crossing [''AB'', ''CD'', ''AX'']) [(slot_a, ''AB''), (slot_d, ''AX'')] = Inr True"
proof -
  let ?cw = "crossing [''AB'', ''CD'', ''AX'']"
  from solve_result_complete_consistent [OF crossing_wf, of "[''AB'', ''CD'', ''AX'']"]
  obtain result doms' where
    s: "solve ?cw (init_domains ?cw) = Inr (result, doms')"
    and r: "\<forall>a. result = Some a \<longrightarrow> assignment_complete ?cw a \<and> consistent ?cw a = Inr True"
    by blast
  from solve_example s have "result = Some [(slot_a, ''AB''), (slot_d, ''AX'')]"
    by (simp split: option.splits)
  with s r show ?thesis by blast
qed












text \<open>
  The hypothesis on the store is needed. On a store that is not arc consistent, which
  is not a state the search of \<^verbatim>\<open>solve\<close> starts from, the nested pass prunes: with
  candidates \<open>AB\<close> across and \<open>CD\<close> down, which disagree in the shared cell, it
  empties the across domain and fails, and the domain stays empty.
\<close>

lemma backtrack_on_inconsistent_store:
  "\<exists>doms'. backtrack (crossing []) (store [''AB''] [''CD'']) [] = Inr (None, doms') \<and>
      doms' slot_a = [] \<and> store [''AB''] [''CD''] slot_a = [''AB'']"
  using backtrack_example
  by (auto simp: store_def slot_a_def slot_d_def split: sum.splits option.splits)

section \<open>Solutions and the order of iteration\<close>

lemma supportedD: "supported cw s doms \<Longrightarrow> x \<in> set (variables cw) \<Longrightarrow> s x \<in> set (doms x)"
  unfolding supported_def list_all_iff by blast

lemma fits_agree:
  "fits cw s \<Longrightarrow> x \<in> set (variables cw) \<Longrightarrow> y \<in> set (variables cw) \<Longrightarrow>
     overlaps cw (x, y) = Some (i, j) \<Longrightarrow> s x ! i = s y ! j"
  unfolding fits_def by blast

lemma revise_supported:
  assumes "wf_crossword cw" "node_consistent cw doms"
    "x \<in> set (variables cw)" "y \<in> set (variables cw)"
    "fits cw s" "supported cw s doms" "revise cw doms x y = Inr (revised, doms1)"
  shows "supported cw s doms1"
  using assms(1-4)
proof (cases rule: revise_cases)
  case no_overlap
  with assms(6,7) show ?thesis by simp
next
  case (overlap i j)
  let ?keep = "\<lambda>w. \<exists>w' \<in> set (doms y). w ! i = w' ! j"
  from overlap(4) assms(7) have d1: "doms1 = doms(x := filter ?keep (doms x))"
    by simp
  have "?keep (s x)"
    using supportedD [OF assms(6,4)] fits_agree [OF assms(5,3,4) overlap(1)] by blast
  with supportedD [OF assms(6,3)] have "s x \<in> set (doms1 x)"
    unfolding d1 by simp
  moreover have "s v \<in> set (doms1 v)" if "v \<in> set (variables cw)" "v \<noteq> x" for v
    using supportedD [OF assms(6) that(1)] that(2) unfolding d1 by simp
  ultimately show ?thesis
    unfolding supported_def list_all_iff by blast
qed

lemma ac3_loop_supported:
  assumes "wf_crossword cw" "node_consistent cw doms"
    "set arcs \<subseteq> set (variables cw) \<times> set (variables cw)"
    "fits cw s" "supported cw s doms"
  shows "\<exists>doms'. ac3_loop cw doms arcs = Inr (True, doms') \<and> supported cw s doms'"
  using assms
proof (induction cw doms arcs rule: ac3_loop.induct)
  case (1 cw doms)
  then show ?case by simp
next
  case (2 cw doms x y arcs)
  let ?V = "set (variables cw)"
  from "2.prems"(3) have xy: "x \<in> ?V" "y \<in> ?V" and arcs: "set arcs \<subseteq> ?V \<times> ?V"
    by auto
  from revise_total [OF "2.prems"(1,2) xy] obtain revised doms1
    where r: "revise cw doms x y = Inr (revised, doms1)" by blast
  have nc1: "node_consistent cw doms1"
    using node_consistent_mono [OF "2.prems"(2)] revise_subset [OF r] by blast
  have sup1: "supported cw s doms1"
    using revise_supported [OF "2.prems"(1,2) xy "2.prems"(4,5) r] .
  show ?case
  proof (cases revised)
    case True
    from supportedD [OF sup1 xy(1)] have ne: "doms1 x \<noteq> []" by auto
    let ?arcs = "arcs @ map (\<lambda>z. (z, x)) (filter (\<lambda>z. z \<noteq> y) (neighbors cw x))"
    have sub: "set ?arcs \<subseteq> ?V \<times> ?V"
      using arcs xy neighbors_subset [of cw x] by auto
    from "2.IH"(1) [OF r refl True ne "2.prems"(1) nc1 sub "2.prems"(4) sup1] r True ne
    show ?thesis by simp
  next
    case False
    from "2.IH"(2) [OF r refl False "2.prems"(1) nc1 arcs "2.prems"(4) sup1] r False
    show ?thesis by simp
  qed
qed

lemma follows_update:
  assumes "follows assignment s"
  shows "follows (AList.update var (s var) assignment) s"
  using assms set_update_subset [of var "s var" assignment]
  unfolding follows_def list_all_iff by auto

lemma follows_consistent:
  assumes "wf_crossword cw" "assignment_ok cw assignment" "fits cw s" "follows assignment s"
  shows "consistent cw assignment = Inr True"
proof -
  have val: "w = s v" if "(v, w) \<in> set assignment" for v w
    using assms(4) that unfolding follows_def list_all_iff by auto
  have keys: "set (map fst assignment) \<subseteq> set (variables cw)"
    using assms(2) unfolding assignment_ok_def list_all_iff by auto
  have "map snd assignment = map (\<lambda>p. s (fst p)) assignment"
    by (rule map_cong [OF refl]) (use val in force)
  then have m: "map snd assignment = map s (map fst assignment)"
    by (simp add: comp_def)
  have "distinct (map s (map fst assignment))"
  proof (rule iffD2 [OF distinct_map], intro conjI)
    show "distinct (map fst assignment)"
      using assms(2) by (simp add: assignment_ok_def)
    show "inj_on s (set (map fst assignment))"
      using assms(3) keys unfolding fits_def by (blast intro: inj_on_subset)
  qed
  with m have d: "distinct (map snd assignment)" by (simp only:)
  have "overlaps_agree cw assignment"
    unfolding overlaps_agree_def list_all_iff
  proof (intro ballI, clarify)
    fix x wx y wy
    assume x: "(x, wx) \<in> set assignment" and y: "(y, wy) \<in> set assignment"
    from x y keys have xy: "x \<in> set (variables cw)" "y \<in> set (variables cw)"
      by force+
    show "case overlaps cw (x, y) of None \<Rightarrow> True | Some (i, j) \<Rightarrow> wx ! i = wy ! j"
      using fits_agree [OF assms(3) xy] val [OF x] val [OF y]
      by (auto split: option.splits)
  qed
  with d consistent_defined [OF assms(1,2)] show ?thesis by simp
qed

lemma ac3_neighbors_supported:
  assumes "wf_crossword cw" "node_consistent cw doms" "var \<in> set (variables cw)"
    "fits cw s" "supported cw s doms"
  shows "\<exists>doms'. ac3 cw doms (Some (map (\<lambda>neighbor. (var, neighbor)) (neighbors cw var)))
            = Inr (True, doms') \<and> supported cw s doms' \<and> node_consistent cw doms'"
proof -
  have sub: "set (map (\<lambda>neighbor. (var, neighbor)) (neighbors cw var))
          \<subseteq> set (variables cw) \<times> set (variables cw)"
    using assms(3) neighbors_subset [of cw var] by auto
  from ac3_loop_supported [OF assms(1,2) sub assms(4,5)] ac3_loop_total [OF assms(1,2) sub]
  show ?thesis
    by (auto simp: ac3_def)
qed

lemma backtrack_complete:
  shows "wf_crossword cw \<Longrightarrow> node_consistent cw doms \<Longrightarrow> assignment_ok cw assignment \<Longrightarrow>
           fits cw s \<Longrightarrow> supported cw s doms \<Longrightarrow>
           \<exists>result doms'. backtrack cw doms assignment = Inr (result, doms') \<and>
              supported cw s doms' \<and> (follows assignment s \<longrightarrow> result \<noteq> None)"
    and "wf_crossword cw \<Longrightarrow> node_consistent cw doms \<Longrightarrow> assignment_ok cw assignment \<Longrightarrow>
           fits cw s \<Longrightarrow> supported cw s doms \<Longrightarrow>
           var \<in> set (variables cw) \<Longrightarrow> \<forall>w \<in> set vals. length w = var_length var \<Longrightarrow>
           \<exists>result doms'. backtrack_values cw doms assignment var vals = Inr (result, doms') \<and>
              supported cw s doms' \<and>
              (follows assignment s \<and> s var \<in> set vals \<longrightarrow> result \<noteq> None)"
proof (induction cw doms assignment and cw doms assignment var vals
    rule: backtrack_backtrack_values.induct)
  case (1 cw doms assignment)
  show ?case
  proof (cases "assignment_complete cw assignment")
    case True
    with "1.prems"(5) show ?thesis by (simp add: backtrack.simps)
  next
    case False
    from select_unassigned_variable_defined [OF False] obtain var where
      sel: "select_unassigned_variable cw doms assignment = Inr var" by blast
    from select_unassigned_variable_member [OF sel] have var: "var \<in> set (variables cw)"
      by simp
    from order_domain_values_defined [OF "1.prems"(1,2) var] obtain vals where
      ord: "order_domain_values cw doms var assignment = Inr vals"
      and vals: "set vals = set (doms var)" by blast
    have len: "\<forall>w \<in> set vals. length w = var_length var"
      using vals node_consistentD [OF "1.prems"(2) var] by simp
    have "s var \<in> set vals"
      using supportedD [OF "1.prems"(5) var] vals by simp
    with "1.IH" [OF False sel ord "1.prems" var len] False sel ord show ?thesis
      by (simp add: backtrack.simps)
  qed
next
  case (2 cw doms assignment var)
  then show ?case by simp
next
  case (3 cw doms assignment var "value" vals)
  let ?new = "AList.update var value assignment"
  let ?arcs = "Some (map (\<lambda>neighbor. (var, neighbor)) (neighbors cw var))"
  note wf = "3.prems"(1) and nc = "3.prems"(2) and ok = "3.prems"(3) and fits = "3.prems"(4)
    and sup = "3.prems"(5) and var = "3.prems"(6)
  from "3.prems"(7) have len: "length value = var_length var"
    and lens: "\<forall>w \<in> set vals. length w = var_length var" by simp_all
  have ok_new: "assignment_ok cw ?new"
    using assignment_ok_update [OF ok var len] .
  have fnew: "follows ?new s" if "follows assignment s" "value = s var"
    using follows_update [OF that(1), of var] that(2) by simp
  show ?case
  proof (cases "consistent cw ?new = Inr True")
    case False
    with consistent_defined [OF wf ok_new] have c: "consistent cw ?new = Inr False"
      by auto
    have ne: "value \<noteq> s var" if "follows assignment s"
      using follows_consistent [OF wf ok_new fits] fnew [OF that] False by blast
    from "3.IH"(5) [OF refl c _ wf nc ok fits sup var lens] obtain result doms' where
      r: "backtrack_values cw doms assignment var vals = Inr (result, doms')"
      and s': "supported cw s doms'"
      and i: "follows assignment s \<and> s var \<in> set vals \<longrightarrow> result \<noteq> None"
      by auto
    have "backtrack_values cw doms assignment var (value # vals) = Inr (result, doms')"
      using c r by (simp add: Let_def)
    moreover have "follows assignment s \<and> s var \<in> set (value # vals) \<longrightarrow> result \<noteq> None"
      using i ne by auto
    ultimately show ?thesis using s' by blast
  next
    case c: True
    from ac3_neighbors_supported [OF wf nc var fits sup] obtain doms1 where
      a: "ac3 cw doms ?arcs = Inr (True, doms1)" and sup1: "supported cw s doms1"
      and nc1: "node_consistent cw doms1" by blast
    from "3.IH"(1) [OF refl c _ a refl _ wf nc1 ok_new fits sup1] obtain r2 doms2 where
      b: "backtrack cw doms1 ?new = Inr (r2, doms2)" and sup2: "supported cw s doms2"
      and i2: "follows ?new s \<longrightarrow> r2 \<noteq> None"
      by auto
    from backtrack_total(1) [OF wf nc1 ok_new] b have post: "search_post cw doms1 ?new {} r2 doms2"
      by simp
    then have nc2: "node_consistent cw doms2"
      unfolding search_post_def by simp
    have nonempty: "found \<noteq> []" if "r2 = Some found" for found
    proof -
      from post that have "found = ?new \<or> found \<noteq> []"
        unfolding search_post_def by blast
      then show ?thesis
        using update_nonempty [of var "value" assignment] by metis
    qed
    show ?thesis
    proof (cases r2)
      case None
      with i2 have ne: "value \<noteq> s var" if "follows assignment s"
        using fnew [OF that] by blast
      from "3.IH"(2) [OF refl c _ a refl _ b refl None wf nc2 ok fits sup2 var lens]
      obtain result doms' where
        r: "backtrack_values cw doms2 assignment var vals = Inr (result, doms')"
        and s': "supported cw s doms'"
        and i: "follows assignment s \<and> s var \<in> set vals \<longrightarrow> result \<noteq> None"
        by auto
      have "backtrack_values cw doms assignment var (value # vals) = Inr (result, doms')"
        using c a b None r by (simp add: Let_def)
      moreover have "follows assignment s \<and> s var \<in> set (value # vals) \<longrightarrow> result \<noteq> None"
        using i ne by auto
      ultimately show ?thesis using s' by blast
    next
      case (Some found)
      from nonempty [OF Some] have "backtrack_values cw doms assignment var (value # vals)
          = Inr (Some found, doms2)"
        using c a b Some by (simp add: Let_def)
      with sup2 show ?thesis by simp
    qed
  qed
qed

lemma solves_fits: "solves cw s \<Longrightarrow> fits cw s"
  unfolding solves_def fits_def list_all_iff
  by (auto simp: distinct_map split: option.splits)

lemma solve_complete:
  assumes "wf_crossword cw" "solves cw s"
  shows "\<exists>a doms'. solve cw (init_domains cw) = Inr (Some a, doms')"
proof -
  let ?d0 = "enforce_node_consistency cw (init_domains cw)"
  note fits = solves_fits [OF assms(2)]
  have sup0: "supported cw s ?d0"
    using assms(2) unfolding supported_def solves_def list_all_iff
    by (simp add: enforce_node_consistency_eq init_domains_def)
  from ac3_loop_supported [OF assms(1) node_consistent_enforce all_arcs_cover(1) [OF assms(1)] fits sup0]
  obtain d1 where a: "ac3 cw ?d0 None = Inr (True, d1)" and sup1: "supported cw s d1"
    by (auto simp: ac3_def)
  from ac3_all_total [OF assms(1) node_consistent_enforce [of cw "init_domains cw"]] a
  have nc1: "node_consistent cw d1"
    by auto
  have "follows [] s" by (simp add: follows_def)
  with backtrack_complete(1) [OF assms(1) nc1 assignment_ok_empty fits sup1]
  obtain result d2 where "backtrack cw d1 [] = Inr (result, d2)" "result \<noteq> None"
    by blast
  with a show ?thesis
    by (auto simp: solve_def)
qed

lemma solve_sound:
  assumes "wf_crossword cw" "solve cw (init_domains cw) = Inr (Some a, doms')"
  shows "solves cw (\<lambda>v. the (map_of a v))"
proof -
  let ?s = "\<lambda>v. the (map_of a v)"
  from solve_total [OF assms(1), of "init_domains cw"] assms(2)
  have c: "assignment_complete cw a" and o: "assignment_ok cw a"
    and k: "consistent cw a = Inr True"
    and p: "\<forall>v w. map_of a v = Some w \<longrightarrow> w \<in> set (words cw)"
    by (auto simp: init_domains_def)
  from k consistent_defined [OF assms(1) o] have d: "distinct (map snd a)"
    and ag: "overlaps_agree cw a" by simp_all
  have ent: "(x, ?s x) \<in> set a" if "x \<in> set (variables cw)" for x
  proof -
    from c that obtain w where "map_of a x = Some w"
      unfolding assignment_complete_def list_all_iff by auto
    then show ?thesis by (simp add: map_of_SomeD)
  qed
  have m: "map_of a x = Some (?s x)" if "x \<in> set (variables cw)" for x
    using assignment_ok_items [OF o ent [OF that]] .
  have 1: "\<forall>x \<in> set (variables cw). ?s x \<in> set (words cw) \<and> length (?s x) = var_length x"
    using m p assignment_okD(2) [OF o] by blast
  have "inj_on ?s (set (variables cw))"
  proof (rule inj_onI)
    fix x y assume x: "x \<in> set (variables cw)" and y: "y \<in> set (variables cw)"
      and e: "?s x = ?s y"
    from d have "inj_on snd (set a)" by (simp add: distinct_map)
    from inj_onD [OF this _ ent [OF x] ent [OF y]] e show "x = y" by simp
  qed
  with assms(1) have 2: "distinct (map ?s (variables cw))"
    by (simp add: distinct_map wf_crossword_def)
  have 3: "\<forall>x \<in> set (variables cw). \<forall>y \<in> set (variables cw).
      case overlaps cw (x, y) of None \<Rightarrow> True | Some (i, j) \<Rightarrow> ?s x ! i = ?s y ! j"
  proof (intro ballI)
    fix x y assume "x \<in> set (variables cw)" "y \<in> set (variables cw)"
    from ent [OF this(1)] ent [OF this(2)] ag
    show "case overlaps cw (x, y) of None \<Rightarrow> True | Some (i, j) \<Rightarrow> ?s x ! i = ?s y ! j"
      unfolding overlaps_agree_def list_all_iff by fastforce
  qed
  from 1 2 3 show ?thesis
    unfolding solves_def list_all_iff by blast
qed

lemma solves_cong:
  assumes "wf_crossword cw1" "wf_crossword cw2"
    "set (variables cw1) = set (variables cw2)" "set (words cw1) = set (words cw2)"
    "overlaps cw1 = overlaps cw2"
  shows "solves cw1 s \<longleftrightarrow> solves cw2 s"
proof -
  have "distinct (map s (variables cw1)) \<longleftrightarrow> distinct (map s (variables cw2))"
    using assms(1,2,3) by (simp add: distinct_map wf_crossword_def)
  with assms(3,4,5) show ?thesis
    unfolding solves_def list_all_iff by simp
qed

text \<open>
  Claim C8. The result of \<^verbatim>\<open>solve\<close> is a function of the puzzle, the vocabulary and the
  order in which the sets of slots and of words are iterated: ties of
  \<^verbatim>\<open>select_unassigned_variable\<close> and of \<^verbatim>\<open>order_domain_values\<close> go to the element
  that comes first. Two runs on the same slots, words and overlaps, whatever their
  iteration orders, both return and agree on whether there is an assignment: there is
  one exactly when the puzzle has a solution, and each returned assignment is a
  solution. Which solution is returned depends on the order.
\<close>

theorem solve_outcome_independent_of_order:
  assumes "wf_crossword cw1" and "wf_crossword cw2"
    and "set (variables cw1) = set (variables cw2)" and "set (words cw1) = set (words cw2)"
    and "overlaps cw1 = overlaps cw2"
  shows "\<exists>r1 d1 r2 d2.
           solve cw1 (init_domains cw1) = Inr (r1, d1) \<and>
           solve cw2 (init_domains cw2) = Inr (r2, d2) \<and>
           (r1 = None \<longleftrightarrow> r2 = None) \<and>
           (r1 \<noteq> None \<longleftrightarrow> (\<exists>s. solves cw1 s)) \<and>
           (\<forall>a. r1 = Some a \<longrightarrow> solves cw1 (\<lambda>v. the (map_of a v))) \<and>
           (\<forall>a. r2 = Some a \<longrightarrow> solves cw2 (\<lambda>v. the (map_of a v)))"
proof -
  from solve_total [OF assms(1), of "init_domains cw1"] obtain r1 d1 where
    s1: "solve cw1 (init_domains cw1) = Inr (r1, d1)" by blast
  from solve_total [OF assms(2), of "init_domains cw2"] obtain r2 d2 where
    s2: "solve cw2 (init_domains cw2) = Inr (r2, d2)" by blast
  have snd1: "solves cw1 (\<lambda>v. the (map_of a v))" if "r1 = Some a" for a
    using solve_sound [OF assms(1)] s1 that by simp
  have snd2: "solves cw2 (\<lambda>v. the (map_of a v))" if "r2 = Some a" for a
    using solve_sound [OF assms(2)] s2 that by simp
  have c1: "r1 \<noteq> None" if "solves cw1 s" for s
    using solve_complete [OF assms(1) that] s1 by auto
  have c2: "r2 \<noteq> None" if "solves cw2 s" for s
    using solve_complete [OF assms(2) that] s2 by auto
  note cong = solves_cong [OF assms]
  have "r1 = None \<longleftrightarrow> r2 = None"
    using snd1 snd2 c1 c2 cong by (cases r1; cases r2) auto
  moreover have "r1 \<noteq> None \<longleftrightarrow> (\<exists>s. solves cw1 s)"
    using snd1 c1 by (cases r1) auto
  ultimately show ?thesis
    using s1 s2 snd1 snd2 by blast
qed

lemma lone_wf: "wf_crossword (lone ws)"
  by (simp add: wf_crossword_def lone_def)

lemma solve_lone_AB_CD:
  "(case solve (lone [''AB'', ''CD'']) (init_domains (lone [''AB'', ''CD''])) of
      Inr (Some a, d) \<Rightarrow> a = [(slot_a, ''AB'')] | _ \<Rightarrow> False)"
  by code_simp

lemma solve_lone_CD_AB:
  "(case solve (lone [''CD'', ''AB'']) (init_domains (lone [''CD'', ''AB''])) of
      Inr (Some a, d) \<Rightarrow> a = [(slot_a, ''CD'')] | _ \<Rightarrow> False)"
  by code_simp

text \<open>
  One slot of length two and the vocabulary \<open>{AB, CD}\<close>: with \<open>AB\<close> iterated first
  the slot gets \<open>AB\<close>, with \<open>CD\<close> first it gets \<open>CD\<close>.
\<close>

theorem solve_depends_on_iteration_order:
  "variables (lone [''AB'', ''CD'']) = variables (lone [''CD'', ''AB'']) \<and>
   set (words (lone [''AB'', ''CD''])) = set (words (lone [''CD'', ''AB''])) \<and>
   overlaps (lone [''AB'', ''CD'']) = overlaps (lone [''CD'', ''AB'']) \<and>
   (\<exists>d. solve (lone [''AB'', ''CD'']) (init_domains (lone [''AB'', ''CD'']))
          = Inr (Some [(slot_a, ''AB'')], d)) \<and>
   (\<exists>d. solve (lone [''CD'', ''AB'']) (init_domains (lone [''CD'', ''AB'']))
          = Inr (Some [(slot_a, ''CD'')], d))"
  using solve_lone_AB_CD solve_lone_CD_AB
  by (auto simp: lone_def split: sum.splits option.splits)

theorem solve_outcome_independent_of_order_witness:
  "\<exists>r1 d1 r2 d2.
     solve (lone [''AB'', ''CD'']) (init_domains (lone [''AB'', ''CD''])) = Inr (r1, d1) \<and>
     solve (lone [''CD'', ''AB'']) (init_domains (lone [''CD'', ''AB''])) = Inr (r2, d2) \<and>
     (r1 = None \<longleftrightarrow> r2 = None)"
proof -
  have "set (variables (lone [''AB'', ''CD''])) = set (variables (lone [''CD'', ''AB'']))"
    "set (words (lone [''AB'', ''CD''])) = set (words (lone [''CD'', ''AB'']))"
    "overlaps (lone [''AB'', ''CD'']) = overlaps (lone [''CD'', ''AB''])"
    by (auto simp: lone_def)
  from solve_outcome_independent_of_order [OF lone_wf lone_wf this] show ?thesis
    by blast
qed

section \<open>Aliasing of assignments\<close>

lemma heap_extends_refl: "heap_extends heap heap"
  by (simp add: heap_extends_def)

lemma heap_extends_append: "heap_extends heap (heap @ added)"
  by (simp add: heap_extends_def)

lemma heap_extends_trans:
  "heap_extends h1 h2 \<Longrightarrow> heap_extends h2 h3 \<Longrightarrow> heap_extends h1 h3"
  unfolding heap_extends_def
  by (metis append_eq_conv_conj append_take_drop_id append.assoc)

lemma heap_extends_nth:
  "heap_extends heap heap' \<Longrightarrow> b < length heap \<Longrightarrow> heap' ! b = heap ! b"
  unfolding heap_extends_def by (metis nth_take)

lemma heap_extends_length:
  "heap_extends heap heap' \<Longrightarrow> length heap \<le> length heap'"
proof -
  assume "heap_extends heap heap'"
  then have "length (take (length heap) heap') = length heap"
    by (simp add: heap_extends_def)
  then show ?thesis
    by (simp add: min_def split: if_splits)
qed

lemma backtrack_values_h_Cons:
  "backtrack_values_h fuel cw doms heap assignment var (value # vals) =
     (case consistent cw (AList.update var value (heap ! assignment)) of
        Inl e \<Rightarrow> Some (Inl e)
      | Inr ok \<Rightarrow>
          if ok then
            (case ac3 cw doms (Some (map (\<lambda>neighbor. (var, neighbor)) (neighbors cw var))) of
               Inl e \<Rightarrow> Some (Inl e)
             | Inr (arc_ok, doms') \<Rightarrow>
                 if arc_ok then
                   (case fuel of
                      0 \<Rightarrow> None
                    | Suc deeper \<Rightarrow>
                        (case backtrack_h deeper cw doms'
                                (heap @ [AList.update var value (heap ! assignment)]) (length heap) of
                           None \<Rightarrow> None
                         | Some (Inl e) \<Rightarrow> Some (Inl e)
                         | Some (Inr (result, doms'', heap3)) \<Rightarrow>
                             (case result of
                                None \<Rightarrow> backtrack_values_h fuel cw doms'' heap3 assignment var vals
                              | Some found \<Rightarrow>
                                  if heap3 ! found \<noteq> [] then Some (Inr (Some found, doms'', heap3))
                                  else backtrack_values_h fuel cw doms'' heap3 assignment var vals)))
                 else backtrack_values_h fuel cw doms'
                        (heap @ [AList.update var value (heap ! assignment)]) assignment var vals)
          else backtrack_values_h fuel cw doms
                 (heap @ [AList.update var value (heap ! assignment)]) assignment var vals)"
  unfolding backtrack_values_h.simps(2) Let_def list_update_length nth_append_length ..

declare backtrack_values_h.simps(2) [simp del]

lemma backtrack_h_frame:
  shows "assignment < length heap \<Longrightarrow>
           backtrack_h fuel cw doms heap assignment = Some (Inr (result, doms', heap')) \<Longrightarrow>
           heap_extends heap heap'"
    and "assignment < length heap \<Longrightarrow>
           backtrack_values_h fuel cw doms heap assignment var vals = Some (Inr (result, doms', heap')) \<Longrightarrow>
           heap_extends heap heap'"
proof (induction fuel cw doms heap assignment and fuel cw doms heap assignment var vals
    arbitrary: result doms' heap' and result doms' heap'
    rule: backtrack_h_backtrack_values_h.induct)
  case (1 fuel cw doms heap assignment)
  show ?case
  proof (cases "assignment_complete cw (heap ! assignment)")
    case True
    with "1.prems"(2) show ?thesis
      by (simp add: backtrack_h.simps heap_extends_refl)
  next
    case False
    with "1.prems"(2) obtain var vals where
      "select_unassigned_variable cw doms (heap ! assignment) = Inr var"
      "order_domain_values cw doms var (heap ! assignment) = Inr vals"
      "backtrack_values_h fuel cw doms heap assignment var vals = Some (Inr (result, doms', heap'))"
      by (auto simp: backtrack_h.simps split: sum.splits)
    from "1.IH" [OF False this(1,2) "1.prems"(1) this(3)] show ?thesis .
  qed
next
  case (2 fuel cw doms heap assignment var)
  then show ?case by (simp add: heap_extends_refl)
next
  case (3 fuel cw doms heap assignment var "value" vals)
  let ?new = "AList.update var value (heap ! assignment)"
  let ?heap2 = "heap @ [?new]"
  let ?arcs = "Some (map (\<lambda>neighbor. (var, neighbor)) (neighbors cw var))"
  note IH = "3.IH" [OF refl refl refl, unfolded list_update_length nth_append_length]
  note eq = "3.prems"(2) [unfolded backtrack_values_h_Cons]
  have ext2: "heap_extends heap ?heap2" by (rule heap_extends_append)
  have a2: "assignment < length ?heap2" using "3.prems"(1) by simp
  have n2: "length heap < length ?heap2" by simp
  show ?case
  proof (cases "consistent cw ?new")
    case (Inl e)
    with eq show ?thesis by simp
  next
    case (Inr ok)
    show ?thesis
    proof (cases ok)
      case False
      with Inr eq have "backtrack_values_h fuel cw doms ?heap2 assignment var vals
          = Some (Inr (result, doms', heap'))" by simp
      from IH(5) [OF Inr False a2 this] ext2 show ?thesis
        by (rule heap_extends_trans [rotated])
    next
      case True
      show ?thesis
      proof (cases "ac3 cw doms ?arcs")
        case (Inl e)
        with Inr True eq show ?thesis by simp
      next
        case a: (Inr res)
        obtain arc_ok doms1 where res: "res = (arc_ok, doms1)" by (cases res)
        show ?thesis
        proof (cases arc_ok)
          case False
          with Inr True a res eq have "backtrack_values_h fuel cw doms1 ?heap2 assignment var vals
              = Some (Inr (result, doms', heap'))" by simp
          from IH(4) [OF Inr True a res [symmetric] False a2 this] ext2 show ?thesis
            by (rule heap_extends_trans [rotated])
        next
          case arc: True
          show ?thesis
          proof (cases fuel)
            case 0
            with Inr True a res arc eq show ?thesis by simp
          next
            case (Suc deeper)
            show ?thesis
            proof (cases "backtrack_h deeper cw doms1 ?heap2 (length heap)")
              case None
              with Inr True a res arc Suc eq show ?thesis by simp
            next
              case (Some out)
              show ?thesis
              proof (cases out)
                case (Inl e)
                with Inr True a res arc Suc Some eq show ?thesis by simp
              next
                case r: (Inr tri)
                obtain r2 doms2 heap3 where tri: "tri = (r2, doms2, heap3)" by (cases tri)
                from Some r tri have b: "backtrack_h deeper cw doms1 ?heap2 (length heap)
                    = Some (Inr (r2, doms2, heap3))" by simp
                from IH(1) [OF Inr True a res [symmetric] arc Suc n2 b]
                have ext3: "heap_extends ?heap2 heap3" .
                with ext2 have ext: "heap_extends heap heap3" by (rule heap_extends_trans)
                from heap_extends_length [OF ext] "3.prems"(1) have a3: "assignment < length heap3"
                  by simp
                show ?thesis
                proof (cases r2)
                  case None
                  with Inr True a res arc Suc b eq
                  have "backtrack_values_h fuel cw doms2 heap3 assignment var vals
                      = Some (Inr (result, doms', heap'))" by simp
                  from IH(2) [OF Inr True a res [symmetric] arc Suc Some r _ _ None a3 this,
                      of "(doms2, heap3)"] tri ext
                  show ?thesis
                    by (simp add: heap_extends_trans)
                next
                  case found: (Some found)
                  show ?thesis
                  proof (cases "heap3 ! found \<noteq> []")
                    case True
                    with Inr \<open>ok\<close> a res arc Suc b found eq have "heap' = heap3" by simp
                    with ext show ?thesis by simp
                  next
                    case False
                    with Inr \<open>ok\<close> a res arc Suc b found eq
                    have "backtrack_values_h fuel cw doms2 heap3 assignment var vals
                      = Some (Inr (result, doms', heap'))" by simp
                    from IH(3) [OF Inr \<open>ok\<close> a res [symmetric] arc Suc Some r _ _ found False a3 this,
                      of "(doms2, heap3)"] tri ext
                    show ?thesis
                      by (simp add: heap_extends_trans)
                  qed
                qed
              qed
            qed
          qed
        qed
      qed
    qed
  qed
qed

lemma backtrack_h_refines:
  shows "backtrack cw doms asg = Inr (result, doms') \<Longrightarrow>
           assignment < length heap \<Longrightarrow> heap ! assignment = asg \<Longrightarrow>
           unassigned_count cw asg {} \<le> fuel \<Longrightarrow>
           \<exists>ref heap'. backtrack_h fuel cw doms heap assignment = Some (Inr (ref, doms', heap')) \<and>
              map_option (\<lambda>r. heap' ! r) ref = result"
    and "backtrack_values cw doms asg var vals = Inr (result, doms') \<Longrightarrow>
           assignment < length heap \<Longrightarrow> heap ! assignment = asg \<Longrightarrow>
           unassigned_count cw asg {var} < fuel \<Longrightarrow>
           \<exists>ref heap'. backtrack_values_h fuel cw doms heap assignment var vals
                = Some (Inr (ref, doms', heap')) \<and>
              map_option (\<lambda>r. heap' ! r) ref = result"
proof (induction cw doms asg and cw doms asg var vals
    arbitrary: result doms' heap assignment fuel and result doms' heap assignment fuel
    rule: backtrack_backtrack_values.induct)
  case (1 cw doms asg)
  show ?case
  proof (cases "assignment_complete cw asg")
    case True
    with "1.prems" show ?thesis
      by (auto simp: backtrack.simps backtrack_h.simps)
  next
    case False
    with "1.prems"(1) obtain var vals where
      sel: "select_unassigned_variable cw doms asg = Inr var"
      and ord: "order_domain_values cw doms var asg = Inr vals"
      and v: "backtrack_values cw doms asg var vals = Inr (result, doms')"
      by (auto simp: backtrack.simps split: sum.splits)
    from select_unassigned_variable_member [OF sel] "1.prems"(4)
    have "unassigned_count cw asg {var} < fuel"
      using unassigned_count_select [of var cw asg] by simp
    from "1.IH" [OF False sel ord v "1.prems"(2,3) this] False sel ord "1.prems"(3)
    show ?thesis
      by (simp add: backtrack_h.simps)
  qed
next
  case (2 cw doms asg var)
  then show ?case by auto
next
  case (3 cw doms asg var "value" vals)
  let ?new = "AList.update var value asg"
  let ?heap2 = "heap @ [?new]"
  let ?arcs = "Some (map (\<lambda>neighbor. (var, neighbor)) (neighbors cw var))"
  note a = "3.prems"(2) and h = "3.prems"(3) and fuel = "3.prems"(4)
  note eq = "3.prems"(1) [unfolded backtrack_values.simps Let_def]
  have a2: "assignment < length ?heap2" using a by simp
  have h2: "?heap2 ! assignment = asg" using a h by (simp add: nth_append)
  have hc: "backtrack_values_h fuel cw doms heap assignment var (value # vals) =
     (case consistent cw ?new of
        Inl e \<Rightarrow> Some (Inl e)
      | Inr ok \<Rightarrow>
          if ok then
            (case ac3 cw doms ?arcs of
               Inl e \<Rightarrow> Some (Inl e)
             | Inr (arc_ok, doms') \<Rightarrow>
                 if arc_ok then
                   (case fuel of
                      0 \<Rightarrow> None
                    | Suc deeper \<Rightarrow>
                        (case backtrack_h deeper cw doms' ?heap2 (length heap) of
                           None \<Rightarrow> None
                         | Some (Inl e) \<Rightarrow> Some (Inl e)
                         | Some (Inr (result, doms'', heap3)) \<Rightarrow>
                             (case result of
                                None \<Rightarrow> backtrack_values_h fuel cw doms'' heap3 assignment var vals
                              | Some found \<Rightarrow>
                                  if heap3 ! found \<noteq> [] then Some (Inr (Some found, doms'', heap3))
                                  else backtrack_values_h fuel cw doms'' heap3 assignment var vals)))
                 else backtrack_values_h fuel cw doms' ?heap2 assignment var vals)
          else backtrack_values_h fuel cw doms ?heap2 assignment var vals)"
    unfolding backtrack_values_h_Cons h ..
  show ?case
  proof (cases "consistent cw ?new")
    case (Inl e)
    with eq show ?thesis by simp
  next
    case (Inr ok)
    show ?thesis
    proof (cases ok)
      case False
      with Inr eq have "backtrack_values cw doms asg var vals = Inr (result, doms')" by simp
      from "3.IH"(5) [OF refl Inr False this a2 h2 fuel] Inr False show ?thesis
        unfolding hc by simp
    next
      case True
      show ?thesis
      proof (cases "ac3 cw doms ?arcs")
        case (Inl e)
        with Inr True eq show ?thesis by simp
      next
        case ac: (Inr res)
        obtain arc_ok doms1 where res: "res = (arc_ok, doms1)" by (cases res)
        show ?thesis
        proof (cases arc_ok)
          case False
          with Inr True ac res eq have "backtrack_values cw doms1 asg var vals = Inr (result, doms')"
            by simp
          from "3.IH"(4) [OF refl Inr True ac res [symmetric] False this a2 h2 fuel]
            Inr True ac res False show ?thesis
            unfolding hc by simp
        next
          case arc: True
          from fuel obtain deeper where Suc: "fuel = Suc deeper" by (cases fuel) auto
          with fuel have deep: "unassigned_count cw ?new {} \<le> deeper"
            by (simp add: unassigned_count_update)
          show ?thesis
          proof (cases "backtrack cw doms1 ?new")
            case (Inl e)
            with Inr True ac res arc eq show ?thesis by simp
          next
            case b: (Inr out)
            obtain r2 doms2 where out: "out = (r2, doms2)" by (cases out)
            have "length heap < length ?heap2" "?heap2 ! length heap = ?new" by simp_all
            from "3.IH"(1) [OF refl Inr True ac res [symmetric] arc b [unfolded out] this deep]
            obtain ref2 heap3 where
              bh: "backtrack_h deeper cw doms1 ?heap2 (length heap) = Some (Inr (ref2, doms2, heap3))"
              and m: "map_option (\<lambda>r. heap3 ! r) ref2 = r2" by blast
            from backtrack_h_frame(1) [OF _ bh] have "heap_extends ?heap2 heap3" by simp
            from heap_extends_nth [OF this a2] heap_extends_length [OF this] h2 a2
            have a3: "assignment < length heap3" and h3: "heap3 ! assignment = asg" by simp_all
            show ?thesis
            proof (cases r2)
              case None
              with m have ref2: "ref2 = None" by simp
              from Inr True ac res arc b out None eq
              have "backtrack_values cw doms2 asg var vals = Inr (result, doms')" by simp
              from "3.IH"(2) [OF refl Inr True ac res [symmetric] arc b out [symmetric] None this a3 h3 fuel]
                Inr True ac res arc Suc bh ref2 show ?thesis
                unfolding hc by simp
            next
              case (Some found)
              with m obtain p where ref2: "ref2 = Some p" and p: "heap3 ! p = found" by auto
              show ?thesis
              proof (cases "found \<noteq> []")
                case True
                with Inr \<open>ok\<close> ac res arc b out Some eq
                have "result = Some found" "doms' = doms2" by simp_all
                with Inr \<open>ok\<close> ac res arc Suc bh ref2 p True show ?thesis
                  unfolding hc by simp
              next
                case False
                with Inr \<open>ok\<close> ac res arc b out Some eq
                have "backtrack_values cw doms2 asg var vals = Inr (result, doms')" by simp
                from "3.IH"(3) [OF refl Inr \<open>ok\<close> ac res [symmetric] arc b out [symmetric] Some False this a3 h3 fuel]
                  Inr \<open>ok\<close> ac res arc Suc bh ref2 p False show ?thesis
                  unfolding hc by simp
              qed
            qed
          qed
        qed
      qed
    qed
  qed
qed

lemma unassigned_count_le: "unassigned_count cw asg extra \<le> length (variables cw)"
proof -
  have "unassigned_count cw asg extra \<le> card (set (variables cw))"
    unfolding unassigned_count_def by (intro card_mono) auto
  also have "\<dots> \<le> length (variables cw)" by (rule card_length)
  finally show ?thesis .
qed

lemma backtrack_h_example:
  "(case backtrack_h 2 (crossing []) (store [''AB''] [''AX'']) [[]] 0 of
      Some (Inr (Some found, doms', heap')) \<Rightarrow>
        heap' ! 0 = [] \<and> heap' ! found = [(slot_a, ''AB''), (slot_d, ''AX'')]
    | _ \<Rightarrow> False)"
  by code_simp

text \<open>
  Claim C9. \<^verbatim>\<open>backtrack\<close> never writes into the dict it is given: whenever a call
  returns, with a result or with \<^verbatim>\<open>None\<close>, the caller's dict and every other dict
  that existed before the call hold the entries they held before; every extension is
  written into a dict allocated by the call. On a well-formed puzzle, a node-consistent
  store and an assignment of the puzzle's slots the call does return, with fuel for as
  many nested calls as there are slots.
\<close>

theorem backtrack_h_keeps_assignment:
  assumes "assignment < length heap"
  shows "(\<forall>fuel result doms' heap'.
            backtrack_h fuel cw doms heap assignment = Some (Inr (result, doms', heap')) \<longrightarrow>
            heap' ! assignment = heap ! assignment \<and>
            (\<forall>r < length heap. heap' ! r = heap ! r)) \<and>
         (wf_crossword cw \<and> node_consistent cw doms \<and> assignment_ok cw (heap ! assignment) \<longrightarrow>
            (\<exists>result doms' heap'.
               backtrack_h (length (variables cw)) cw doms heap assignment
                 = Some (Inr (result, doms', heap'))))"
proof (intro conjI allI impI)
  fix fuel result doms' heap'
  assume "backtrack_h fuel cw doms heap assignment = Some (Inr (result, doms', heap'))"
  from backtrack_h_frame(1) [OF assms this] have e: "heap_extends heap heap'" .
  from heap_extends_nth [OF e assms] show "heap' ! assignment = heap ! assignment" .
  fix r assume "r < length heap"
  from heap_extends_nth [OF e this] show "heap' ! r = heap ! r" .
next
  assume "wf_crossword cw \<and> node_consistent cw doms \<and> assignment_ok cw (heap ! assignment)"
  then have "wf_crossword cw" "node_consistent cw doms" "assignment_ok cw (heap ! assignment)"
    by simp_all
  from backtrack_total(1) [OF this] obtain result doms' where
    "backtrack cw doms (heap ! assignment) = Inr (result, doms')" by blast
  from backtrack_h_refines(1) [OF this assms refl unassigned_count_le]
  show "\<exists>result doms' heap'.
               backtrack_h (length (variables cw)) cw doms heap assignment
                 = Some (Inr (result, doms', heap'))"
    by blast
qed

theorem backtrack_h_keeps_assignment_witness:
  "\<exists>result doms' heap'.
     backtrack_h 2 (crossing []) (store [''AB''] [''AX'']) [[]] 0 = Some (Inr (result, doms', heap')) \<and>
     heap' ! 0 = [[]] ! 0 \<and> result \<noteq> None"
proof -
  obtain found doms' heap' where
    "backtrack_h 2 (crossing []) (store [''AB''] [''AX'']) [[]] 0 = Some (Inr (Some found, doms', heap'))"
    using backtrack_h_example
    by (auto split: option.splits sum.splits)
  moreover from backtrack_h_keeps_assignment [of 0 "[[]]" "crossing []" "store [''AB''] [''AX'']"] this
  have "heap' ! 0 = [[]] ! 0" by simp
  ultimately show ?thesis by blast
qed

end
